theory Spec2Isabelle
  imports Complex_Main "HOL-Library.Sublist"
begin

section \<open>Mesh generator: shallow embedding of the component combiner\<close>

subsection \<open>Watertightness check\<close>

text \<open>
  A face is the list of its vertex indices. \<open>isWatertight\<close> walks the faces and inserts
  every directed half-edge \<open>(face[i], face[(i + 1) % size])\<close> into a set; the walk returns
  false at the first half-edge that is already present (here: \<open>None\<close>). Afterwards every
  half-edge in the set must have its reverse in the set.
\<close>

type_synonym face = "nat list"

fun insertHalfEdges :: "face \<Rightarrow> nat list \<Rightarrow> (nat \<times> nat) set \<Rightarrow> (nat \<times> nat) set option" where
  "insertHalfEdges face [] halfEdges = Some halfEdges"
| "insertHalfEdges face (i # rest) halfEdges =
     (let j = (i + 1) mod length face in
      if (face ! i, face ! j) \<in> halfEdges then None
      else insertHalfEdges face rest (insert (face ! i, face ! j) halfEdges))"

fun collectHalfEdges :: "face list \<Rightarrow> (nat \<times> nat) set \<Rightarrow> (nat \<times> nat) set option" where
  "collectHalfEdges [] halfEdges = Some halfEdges"
| "collectHalfEdges (face # faces) halfEdges =
     (case insertHalfEdges face [0..<length face] halfEdges of
        None \<Rightarrow> None
      | Some halfEdges' \<Rightarrow> collectHalfEdges faces halfEdges')"

definition isWatertight :: "face list \<Rightarrow> bool" where
  "isWatertight faces =
     (case collectHalfEdges faces {} of
        None \<Rightarrow> False
      | Some halfEdges \<Rightarrow> (\<forall>it \<in> halfEdges. (snd it, fst it) \<in> halfEdges))"

text \<open>The directed half-edges of a face and of a face list, in the order they are walked.\<close>

definition halfEdgeAt :: "face \<Rightarrow> nat \<Rightarrow> nat \<times> nat" where
  "halfEdgeAt face i = (face ! i, face ! ((i + 1) mod length face))"

definition faceHalfEdges :: "face \<Rightarrow> (nat \<times> nat) list" where
  "faceHalfEdges face = map (halfEdgeAt face) [0..<length face]"

definition allHalfEdges :: "face list \<Rightarrow> (nat \<times> nat) list" where
  "allHalfEdges faces = concat (map faceHalfEdges faces)"

lemma insertHalfEdges_char:
  "insertHalfEdges face idxs H =
     (if distinct (map (halfEdgeAt face) idxs) \<and> set (map (halfEdgeAt face) idxs) \<inter> H = {}
      then Some (H \<union> set (map (halfEdgeAt face) idxs)) else None)"
proof (induction idxs arbitrary: H)
  case Nil
  show ?case by simp
next
  case (Cons i rest)
  have e: "(face ! i, face ! ((i + 1) mod length face)) = halfEdgeAt face i"
    by (simp add: halfEdgeAt_def)
  show ?case
    unfolding insertHalfEdges.simps Let_def e Cons.IH
    by auto
qed

lemma collectHalfEdges_char:
  "collectHalfEdges faces H =
     (if distinct (allHalfEdges faces) \<and> set (allHalfEdges faces) \<inter> H = {}
      then Some (H \<union> set (allHalfEdges faces)) else None)"
proof (induction faces arbitrary: H)
  case Nil
  show ?case by (simp add: allHalfEdges_def)
next
  case (Cons face faces)
  have split: "allHalfEdges (face # faces) = faceHalfEdges face @ allHalfEdges faces"
    by (simp add: allHalfEdges_def)
  show ?case
    unfolding collectHalfEdges.simps insertHalfEdges_char Cons.IH split
    by (auto simp: faceHalfEdges_def)
qed

text \<open>
  C2. \<open>isWatertight\<close> returns true if and only if no directed half-edge occurs more than once
  across all faces and every directed half-edge of every face has its opposite directed
  half-edge in some face.
\<close>

theorem isWatertight_iff:
  "isWatertight faces \<longleftrightarrow>
     distinct (allHalfEdges faces) \<and>
     (\<forall>e \<in> set (allHalfEdges faces). (snd e, fst e) \<in> set (allHalfEdges faces))"
proof -
  have "collectHalfEdges faces {} =
      (if distinct (allHalfEdges faces) then Some (set (allHalfEdges faces)) else None)"
    by (simp add: collectHalfEdges_char)
  then show ?thesis
    by (simp add: isWatertight_def)
qed

theorem isWatertight_iff_witness:
  "isWatertight [[0, 1, 2], [2, 1, 3], [1, 0, 3], [0, 2, 3]] \<and>
   distinct (allHalfEdges [[0, 1, 2], [2, 1, 3], [1, 0, 3], [0, 2, 3]]) \<and>
   \<not> isWatertight [[0, 1, 2]] \<and> \<not> isWatertight [[0, 1, 2], [0, 1, 3]]"
proof -
  have a: "allHalfEdges [[0, 1, 2], [2, 1, 3], [1, 0, 3], [0, 2, 3]] =
      [(0,1),(1,2),(2,0),(2,1),(1,3),(3,2),(1,0),(0,3),(3,1),(0,2),(2,3),(3,0)]"
    by (simp add: allHalfEdges_def faceHalfEdges_def halfEdgeAt_def upt_rec)
  have b: "allHalfEdges [[0, 1, 2]] = [(0,1),(1,2),(2,0)]"
    by (simp add: allHalfEdges_def faceHalfEdges_def halfEdgeAt_def upt_rec)
  have c: "allHalfEdges [[0, 1, 2], [0, 1, 3]] = [(0,1),(1,2),(2,0),(0,1),(1,3),(3,0)]"
    by (simp add: allHalfEdges_def faceHalfEdges_def halfEdgeAt_def upt_rec)
  show ?thesis
    using isWatertight_iff [of "[[0, 1, 2], [2, 1, 3], [1, 0, 3], [0, 2, 3]]"]
      isWatertight_iff [of "[[0, 1, 2]]"] isWatertight_iff [of "[[0, 1, 2], [0, 1, 3]]"]
    unfolding a b c by simp
qed

subsection \<open>Shared quad edges\<close>

text \<open>
  The quantisation \<open>PositionKey\<close> of a vertex position is declared outside the embedded
  sources; it is a parameter here. Reading \<open>vertices[i]\<close> past the end of the vector has
  no defined behaviour in the source: the model fails with \<open>None\<close> there.
\<close>

definition vertexKey :: "('v \<Rightarrow> 'k) \<Rightarrow> 'v list \<Rightarrow> nat \<Rightarrow> 'k option" where
  "vertexKey PositionKey vertices i =
     (if i < length vertices then Some (PositionKey (vertices ! i)) else None)"

fun collectSharedQuadEdges ::
  "('v \<Rightarrow> 'k) \<Rightarrow> 'v list \<Rightarrow> face list \<Rightarrow> ('k \<times> 'k) set \<Rightarrow> ('k \<times> 'k) set option" where
  "collectSharedQuadEdges PositionKey vertices [] sharedQuadEdges = Some sharedQuadEdges"
| "collectSharedQuadEdges PositionKey vertices (face # faces) sharedQuadEdges =
     (if length face \<noteq> 4 then collectSharedQuadEdges PositionKey vertices faces sharedQuadEdges
      else
        (case vertexKey PositionKey vertices (face ! 0) of None \<Rightarrow> None | Some k0 \<Rightarrow>
        (case vertexKey PositionKey vertices (face ! 2) of None \<Rightarrow> None | Some k2 \<Rightarrow>
        (case vertexKey PositionKey vertices (face ! 1) of None \<Rightarrow> None | Some k1 \<Rightarrow>
        (case vertexKey PositionKey vertices (face ! 3) of None \<Rightarrow> None | Some k3 \<Rightarrow>
           collectSharedQuadEdges PositionKey vertices faces
             (insert (k1, k3) (insert (k0, k2) sharedQuadEdges)))))))"

text \<open>The two diagonals of a four-vertex face, as pairs of position keys.\<close>

definition quadDiagonals :: "('v \<Rightarrow> 'k) \<Rightarrow> 'v list \<Rightarrow> face \<Rightarrow> ('k \<times> 'k) set" where
  "quadDiagonals PositionKey vertices face =
     {(PositionKey (vertices ! (face ! 0)), PositionKey (vertices ! (face ! 2))),
      (PositionKey (vertices ! (face ! 1)), PositionKey (vertices ! (face ! 3)))}"

definition facesInRange :: "'v list \<Rightarrow> face list \<Rightarrow> bool" where
  "facesInRange vertices faces =
     list_all (\<lambda>face. length face = 4 \<longrightarrow> list_all (\<lambda>i. i < length vertices) face) faces"

lemma collectSharedQuadEdges_skip:
  "collectSharedQuadEdges pk vs faces S =
   collectSharedQuadEdges pk vs (filter (\<lambda>face. length face = 4) faces) S"
  by (induction faces arbitrary: S) (simp_all split: option.splits)

lemma quad_indices_in_range:
  assumes "length face = 4" and "list_all (\<lambda>i. i < n) face"
  shows "face ! 0 < n \<and> face ! 1 < n \<and> face ! 2 < n \<and> face ! 3 < n"
  using assms by (simp add: list_all_length)

lemma collectSharedQuadEdges_result:
  "facesInRange vs faces \<Longrightarrow>
   collectSharedQuadEdges pk vs faces S =
     Some (S \<union> (\<Union>face \<in> {face \<in> set faces. length face = 4}. quadDiagonals pk vs face))"
proof (induction faces arbitrary: S)
  case Nil
  show ?case by simp
next
  case (Cons face faces)
  from Cons.prems have rest: "facesInRange vs faces"
    by (simp add: facesInRange_def)
  show ?case
  proof (cases "length face = 4")
    case False
    then show ?thesis using Cons.IH [OF rest] by auto
  next
    case True
    with Cons.prems have "list_all (\<lambda>i. i < length vs) face"
      by (simp add: facesInRange_def)
    from quad_indices_in_range [OF True this]
    have keys: "vertexKey pk vs (face ! 0) = Some (pk (vs ! (face ! 0)))"
      "vertexKey pk vs (face ! 1) = Some (pk (vs ! (face ! 1)))"
      "vertexKey pk vs (face ! 2) = Some (pk (vs ! (face ! 2)))"
      "vertexKey pk vs (face ! 3) = Some (pk (vs ! (face ! 3)))"
      by (simp_all add: vertexKey_def)
    have "collectSharedQuadEdges pk vs (face # faces) S =
        collectSharedQuadEdges pk vs faces (S \<union> quadDiagonals pk vs face)"
      using True by (simp add: keys(1,3,4) keys(2) [unfolded One_nat_def] quadDiagonals_def insert_commute)
    also have "\<dots> = Some ((S \<union> quadDiagonals pk vs face) \<union>
        (\<Union>f \<in> {f \<in> set faces. length f = 4}. quadDiagonals pk vs f))"
      by (rule Cons.IH [OF rest])
    also have "(S \<union> quadDiagonals pk vs face) \<union>
        (\<Union>f \<in> {f \<in> set faces. length f = 4}. quadDiagonals pk vs f) =
        S \<union> (\<Union>f \<in> {f \<in> set (face # faces). length f = 4}. quadDiagonals pk vs f)"
      using True by auto
    finally show ?thesis .
  qed
qed

text \<open>
  C4. On a face list whose four-vertex faces index into the vertex list,
  \<open>collectSharedQuadEdges\<close> adds to the set exactly the two diagonal position-key pairs
  (vertex 0 with vertex 2, vertex 1 with vertex 3) of every face with exactly four vertices;
  faces of any other size contribute nothing: dropping them from the input never changes
  the result.
\<close>

theorem collectSharedQuadEdges_diagonals:
  "(facesInRange vertices faces \<longrightarrow>
      collectSharedQuadEdges PositionKey vertices faces sharedQuadEdges =
        Some (sharedQuadEdges \<union>
          (\<Union>face \<in> {face \<in> set faces. length face = 4}.
             quadDiagonals PositionKey vertices face))) \<and>
   collectSharedQuadEdges PositionKey vertices faces sharedQuadEdges =
     collectSharedQuadEdges PositionKey vertices
       (filter (\<lambda>face. length face = 4) faces) sharedQuadEdges"
  using collectSharedQuadEdges_result [of vertices faces PositionKey sharedQuadEdges]
    collectSharedQuadEdges_skip [of PositionKey vertices faces sharedQuadEdges]
  by blast

theorem collectSharedQuadEdges_diagonals_witness:
  "facesInRange [10, 11, 12, 13, 14 :: nat] [[0, 1, 2, 3], [0, 1, 4], [4, 3, 2, 1, 0]] \<and>
   collectSharedQuadEdges (\<lambda>v. v) [10, 11, 12, 13, 14 :: nat]
     [[0, 1, 2, 3], [0, 1, 4], [4, 3, 2, 1, 0]] {} = Some {(10, 12), (11, 13)} \<and>
   collectSharedQuadEdges (\<lambda>v. v) [10, 11, 12, 13, 14 :: nat] [[0, 1, 2, 3]] {} =
     Some {(10, 12), (11, 13)}"
proof -
  have r: "facesInRange [10, 11, 12, 13, 14 :: nat] [[0, 1, 2, 3], [0, 1, 4], [4, 3, 2, 1, 0]]"
    by (simp add: facesInRange_def)
  have q: "{face \<in> set [[0, 1, 2, 3], [0, 1, 4], [4, 3, 2, 1, 0 :: nat]]. length face = 4} =
      {[0, 1, 2, 3]}"
    by auto
  have f: "filter (\<lambda>face. length face = 4) [[0, 1, 2, 3], [0, 1, 4], [4, 3, 2, 1, 0 :: nat]] =
      [[0, 1, 2, 3]]"
    by simp
  show ?thesis
    using r collectSharedQuadEdges_diagonals [of "[10, 11, 12, 13, 14 :: nat]"
        "[[0, 1, 2, 3], [0, 1, 4], [4, 3, 2, 1, 0]]" "\<lambda>v. v" "{}"]
    unfolding q f by (simp add: quadDiagonals_def vertexKey_def insert_commute)
qed

subsection \<open>Recovering quads from triangles\<close>

text \<open>
  \<open>triangleEdgeMap\<close> is a \<open>std::map\<close> from a directed edge to the triangle that has it and
  the vertex opposite to it. It is the list of its entries in iteration order, ascending
  in the lexicographic order of the pairs; \<open>mapAssign\<close> is \<open>triangleEdgeMap[k] = v\<close>, which
  replaces the value of a key already present.
\<close>

type_synonym edgeMap = "((nat \<times> nat) \<times> (nat \<times> nat)) list"

definition edgeLess :: "nat \<times> nat \<Rightarrow> nat \<times> nat \<Rightarrow> bool" where
  "edgeLess x y \<longleftrightarrow> fst x < fst y \<or> (fst x = fst y \<and> snd x < snd y)"

fun mapAssign :: "nat \<times> nat \<Rightarrow> nat \<times> nat \<Rightarrow> edgeMap \<Rightarrow> edgeMap" where
  "mapAssign k v [] = [(k, v)]"
| "mapAssign k v (entry # rest) =
     (if k = fst entry then (k, v) # rest
      else if edgeLess k (fst entry) then (k, v) # entry # rest
      else entry # mapAssign k v rest)"

definition addTriangleEdges :: "edgeMap \<Rightarrow> nat \<times> face \<Rightarrow> edgeMap" where
  "addTriangleEdges triangleEdgeMap indexed =
     (case indexed of (i, faceIndices) \<Rightarrow>
        if length faceIndices = 3 then
          mapAssign (faceIndices ! 2, faceIndices ! 0) (i, faceIndices ! 1)
            (mapAssign (faceIndices ! 1, faceIndices ! 2) (i, faceIndices ! 0)
               (mapAssign (faceIndices ! 0, faceIndices ! 1) (i, faceIndices ! 2) triangleEdgeMap))
        else triangleEdgeMap)"

definition buildTriangleEdgeMap :: "face list \<Rightarrow> edgeMap" where
  "buildTriangleEdgeMap triangles = foldl addTriangleEdges [] (enumerate 0 triangles)"

text \<open>
  The second loop walks the entries of the map, with the set \<open>unionedFaces\<close> and the output
  vector as its state. Reading \<open>verticesPositionKeys\<close> past its end has no defined
  behaviour in the source: the model fails with \<open>None\<close>. \<open>recoverQuads\<close> appends to the vector
  it is given, first the quads, then every face that was not unioned.
\<close>

fun unionTriangles ::
  "('v \<Rightarrow> 'k) \<Rightarrow> 'v list \<Rightarrow> ('k \<times> 'k) set \<Rightarrow> edgeMap \<Rightarrow> edgeMap \<Rightarrow> nat set \<times> face list \<Rightarrow>
   (nat set \<times> face list) option" where
  "unionTriangles PositionKey vertices sharedQuadEdges triangleEdgeMap [] acc = Some acc"
| "unionTriangles PositionKey vertices sharedQuadEdges triangleEdgeMap (edge # rest) acc =
     (if fst (snd edge) \<in> fst acc
      then unionTriangles PositionKey vertices sharedQuadEdges triangleEdgeMap rest acc
      else
        (case vertexKey PositionKey vertices (fst (fst edge)) of None \<Rightarrow> None | Some keyA \<Rightarrow>
        (case vertexKey PositionKey vertices (snd (fst edge)) of None \<Rightarrow> None | Some keyB \<Rightarrow>
           if (keyA, keyB) \<in> sharedQuadEdges then
             (case map_of triangleEdgeMap (snd (fst edge), fst (fst edge)) of
                None \<Rightarrow> unionTriangles PositionKey vertices sharedQuadEdges triangleEdgeMap rest acc
              | Some oppositeEdge \<Rightarrow>
                  if fst oppositeEdge \<notin> fst acc then
                    unionTriangles PositionKey vertices sharedQuadEdges triangleEdgeMap rest
                      (insert (fst oppositeEdge) (insert (fst (snd edge)) (fst acc)),
                       snd acc @
                         [[snd (snd edge), fst (fst edge), snd oppositeEdge, snd (fst edge)]])
                  else unionTriangles PositionKey vertices sharedQuadEdges triangleEdgeMap rest acc)
           else unionTriangles PositionKey vertices sharedQuadEdges triangleEdgeMap rest acc)))"

definition recoverQuads ::
  "('v \<Rightarrow> 'k) \<Rightarrow> 'v list \<Rightarrow> face list \<Rightarrow> ('k \<times> 'k) set \<Rightarrow> face list \<Rightarrow> face list option" where
  "recoverQuads PositionKey vertices triangles sharedQuadEdges triangleAndQuads =
     (let triangleEdgeMap = buildTriangleEdgeMap triangles in
      case unionTriangles PositionKey vertices sharedQuadEdges triangleEdgeMap triangleEdgeMap
             ({}, triangleAndQuads) of
        None \<Rightarrow> None
      | Some (unionedFaces, newFaces) \<Rightarrow>
          Some (newFaces @
                map (\<lambda>i. triangles ! i) (filter (\<lambda>i. i \<notin> unionedFaces) [0..<length triangles])))"

text \<open>
  The vocabulary of the claim. \<open>hasEdge f a b opp\<close>: the face \<open>f\<close> is a triangle with the
  directed edge from \<open>a\<close> to \<open>b\<close> and the opposite vertex \<open>opp\<close>. A merge \<open>(i, j, q)\<close> records that
  triangles \<open>i\<close> and \<open>j\<close> became the quad \<open>q\<close>; \<open>mergesPair\<close> says that they are adjacent along an
  edge whose position-key pair is in \<open>sharedQuadEdges\<close> and that \<open>q\<close> lists the opposite vertex
  of the first, the start of the edge, the opposite vertex of the second and the end of
  the edge. \<open>mergeFaces\<close> are the triangles of a merge. An entry of the edge map qualifies,
  with the triangle \<open>j\<close> across, when its key pair is in \<open>sharedQuadEdges\<close> and the map has the
  opposite edge, in triangle \<open>j\<close>.
\<close>

definition hasEdge :: "face \<Rightarrow> nat \<Rightarrow> nat \<Rightarrow> nat \<Rightarrow> bool" where
  "hasEdge f a b opp \<longleftrightarrow> f = [a, b, opp] \<or> f = [opp, a, b] \<or> f = [b, opp, a]"

definition mergesPair ::
  "('v \<Rightarrow> 'k) \<Rightarrow> 'v list \<Rightarrow> face list \<Rightarrow> ('k \<times> 'k) set \<Rightarrow> nat \<times> nat \<times> face \<Rightarrow> bool" where
  "mergesPair PositionKey vertices triangles sharedQuadEdges m \<longleftrightarrow>
     (\<exists>a b o1 o2.
        snd (snd m) = [o1, a, o2, b] \<and>
        fst m < length triangles \<and> fst (snd m) < length triangles \<and>
        hasEdge (triangles ! fst m) a b o1 \<and> hasEdge (triangles ! fst (snd m)) b a o2 \<and>
        a < length vertices \<and> b < length vertices \<and>
        (PositionKey (vertices ! a), PositionKey (vertices ! b)) \<in> sharedQuadEdges)"

definition mergeFaces :: "nat \<times> nat \<times> face \<Rightarrow> nat list" where
  "mergeFaces m = (if fst m = fst (snd m) then [fst m] else [fst m, fst (snd m)])"

definition qualifies ::
  "('v \<Rightarrow> 'k) \<Rightarrow> 'v list \<Rightarrow> ('k \<times> 'k) set \<Rightarrow> edgeMap \<Rightarrow> (nat \<times> nat) \<times> (nat \<times> nat) \<Rightarrow> nat \<Rightarrow> bool" where
  "qualifies PositionKey vertices sharedQuadEdges triangleEdgeMap edge j \<longleftrightarrow>
     fst (fst edge) < length vertices \<and> snd (fst edge) < length vertices \<and>
     (PositionKey (vertices ! fst (fst edge)), PositionKey (vertices ! snd (fst edge)))
       \<in> sharedQuadEdges \<and>
     (\<exists>opp. map_of triangleEdgeMap (snd (fst edge), fst (fst edge)) = Some (j, opp))"

definition trianglesInRange :: "'v list \<Rightarrow> face list \<Rightarrow> bool" where
  "trianglesInRange vertices triangles =
     list_all (\<lambda>f. length f = 3 \<longrightarrow> list_all (\<lambda>i. i < length vertices) f) triangles"

text \<open>
  No directed edge belongs to two triangles of the list (as in a manifold mesh); and a
  face of the enumerated list assigns the key \<open>k\<close> of the edge map.
\<close>

definition edgesUnshared :: "face list \<Rightarrow> bool" where
  "edgesUnshared triangles \<longleftrightarrow>
     (\<forall>i < length triangles. \<forall>j < length triangles.
        i \<noteq> j \<and> length (triangles ! i) = 3 \<and> length (triangles ! j) = 3 \<longrightarrow>
          set (faceHalfEdges (triangles ! i)) \<inter> set (faceHalfEdges (triangles ! j)) = {})"

definition touches :: "nat \<times> face \<Rightarrow> nat \<times> nat \<Rightarrow> bool" where
  "touches x k \<longleftrightarrow> length (snd x) = 3 \<and> k \<in> set (faceHalfEdges (snd x))"

text \<open>
  The walk, stated on the entries of the edge map by their position \<open>n\<close> in it. \<open>edgeMapOf\<close>
  says what the map of a triangle list is: its keys ascend strictly in the lexicographic
  order of pairs, every entry is a
  directed edge of the triangle it names, with the vertex opposite to it, and the directed
  edge of a triangle is mapped to the last triangle of the list that has it. \<open>mergeOf\<close>: the
  merge \<open>m\<close> is that of an entry with the triangle of the opposite edge. \<open>mergedBefore ks merges n\<close>
  are the triangles of the merges made at the positions of \<open>ks\<close> below \<open>n\<close>. \<open>greedyAt\<close>: the
  entry at \<open>n\<close> qualifies and neither its triangle nor the triangle across is in the given
  set. \<open>greedyWalk\<close>: the merges are made at the positions \<open>ks\<close>, in ascending order, and a
  position is among them exactly when it is greedy with respect to the triangles merged
  before it.
\<close>

definition mergeOf :: "edgeMap \<Rightarrow> (nat \<times> nat) \<times> (nat \<times> nat) \<Rightarrow> nat \<times> nat \<times> face \<Rightarrow> bool" where
  "mergeOf triangleEdgeMap edge m \<longleftrightarrow>
     fst m = fst (snd edge) \<and>
     (\<exists>o2. map_of triangleEdgeMap (snd (fst edge), fst (fst edge)) = Some (fst (snd m), o2) \<and>
        snd (snd m) = [snd (snd edge), fst (fst edge), o2, snd (fst edge)])"

definition mergedBefore :: "nat list \<Rightarrow> (nat \<times> nat \<times> face) list \<Rightarrow> nat \<Rightarrow> nat set" where
  "mergedBefore ks merges n =
     set (concat (map (\<lambda>p. mergeFaces (snd p)) (filter (\<lambda>p. fst p < n) (zip ks merges))))"

definition greedyAt ::
  "('v \<Rightarrow> 'k) \<Rightarrow> 'v list \<Rightarrow> ('k \<times> 'k) set \<Rightarrow> edgeMap \<Rightarrow> nat set \<Rightarrow> nat \<Rightarrow> bool" where
  "greedyAt PositionKey vertices sharedQuadEdges triangleEdgeMap merged n \<longleftrightarrow>
     (\<exists>j. qualifies PositionKey vertices sharedQuadEdges triangleEdgeMap (triangleEdgeMap ! n) j \<and>
        fst (snd (triangleEdgeMap ! n)) \<notin> merged \<and> j \<notin> merged)"

definition greedyWalk ::
  "('v \<Rightarrow> 'k) \<Rightarrow> 'v list \<Rightarrow> ('k \<times> 'k) set \<Rightarrow> edgeMap \<Rightarrow> nat list \<Rightarrow> (nat \<times> nat \<times> face) list \<Rightarrow> bool" where
  "greedyWalk PositionKey vertices sharedQuadEdges triangleEdgeMap ks merges \<longleftrightarrow>
     sorted_wrt (<) ks \<and>
     list_all2 (\<lambda>k m. mergeOf triangleEdgeMap (triangleEdgeMap ! k) m) ks merges \<and>
     (\<forall>n < length triangleEdgeMap.
        n \<in> set ks \<longleftrightarrow>
          greedyAt PositionKey vertices sharedQuadEdges triangleEdgeMap (mergedBefore ks merges n) n) \<and>
     (\<forall>k \<in> set ks. k < length triangleEdgeMap)"

definition edgeMapOf :: "face list \<Rightarrow> edgeMap \<Rightarrow> bool" where
  "edgeMapOf triangles triangleEdgeMap \<longleftrightarrow>
     sorted_wrt (\<lambda>x y. fst (fst x) < fst (fst y) \<or>
                   (fst (fst x) = fst (fst y) \<and> snd (fst x) < snd (fst y))) triangleEdgeMap \<and>
     (\<forall>e \<in> set triangleEdgeMap. fst (snd e) < length triangles \<and>
        hasEdge (triangles ! fst (snd e)) (fst (fst e)) (snd (fst e)) (snd (snd e))) \<and>
     (\<forall>i a b opp.
        i < length triangles \<and> hasEdge (triangles ! i) a b opp \<and>
        (\<forall>i' o'. i < i' \<and> i' < length triangles \<longrightarrow> \<not> hasEdge (triangles ! i') a b o') \<longrightarrow>
          map_of triangleEdgeMap (a, b) = Some (i, opp))"

text \<open>Invariants of the two loops.\<close>

definition entriesSound :: "face list \<Rightarrow> edgeMap \<Rightarrow> bool" where
  "entriesSound triangles m \<longleftrightarrow>
     (\<forall>e \<in> set m. fst (snd e) < length triangles \<and>
        hasEdge (triangles ! fst (snd e)) (fst (fst e)) (snd (fst e)) (snd (snd e)))"

definition entryMerge ::
  "('v \<Rightarrow> 'k) \<Rightarrow> 'v list \<Rightarrow> ('k \<times> 'k) set \<Rightarrow> edgeMap \<Rightarrow> nat \<times> nat \<times> face \<Rightarrow> bool" where
  "entryMerge PositionKey vertices sharedQuadEdges triangleEdgeMap m \<longleftrightarrow>
     (\<exists>a b o1 o2.
        snd (snd m) = [o1, a, o2, b] \<and>
        ((a, b), (fst m, o1)) \<in> set triangleEdgeMap \<and>
        ((b, a), (fst (snd m), o2)) \<in> set triangleEdgeMap \<and>
        a < length vertices \<and> b < length vertices \<and>
        (PositionKey (vertices ! a), PositionKey (vertices ! b)) \<in> sharedQuadEdges)"

definition unionStep ::
  "('v \<Rightarrow> 'k) \<Rightarrow> 'v list \<Rightarrow> ('k \<times> 'k) set \<Rightarrow> edgeMap \<Rightarrow> (nat \<times> nat) \<times> (nat \<times> nat) \<Rightarrow>
   nat set \<times> face list \<Rightarrow> nat set \<times> face list \<Rightarrow> bool" where
  "unionStep PositionKey vertices sharedQuadEdges triangleEdgeMap edge acc acc1 \<longleftrightarrow>
     (acc1 = acc \<and>
      (\<forall>j. qualifies PositionKey vertices sharedQuadEdges triangleEdgeMap edge j \<longrightarrow>
         fst (snd edge) \<in> fst acc \<or> j \<in> fst acc)) \<or>
     (\<exists>j o2.
        fst (snd edge) \<notin> fst acc \<and> j \<notin> fst acc \<and>
        fst (fst edge) < length vertices \<and> snd (fst edge) < length vertices \<and>
        (PositionKey (vertices ! fst (fst edge)), PositionKey (vertices ! snd (fst edge)))
          \<in> sharedQuadEdges \<and>
        map_of triangleEdgeMap (snd (fst edge), fst (fst edge)) = Some (j, o2) \<and>
        acc1 = (insert j (insert (fst (snd edge)) (fst acc)),
                snd acc @ [[snd (snd edge), fst (fst edge), o2, snd (fst edge)]]))"

lemma set_mapAssign: "set (mapAssign k v m) \<subseteq> insert (k, v) (set m)"
  by (induction m) auto

lemma entriesSound_assign:
  assumes "entriesSound triangles m" and "i < length triangles"
    and "hasEdge (triangles ! i) a b opp"
  shows "entriesSound triangles (mapAssign (a, b) (i, opp) m)"
  unfolding entriesSound_def
proof
  fix e assume "e \<in> set (mapAssign (a, b) (i, opp) m)"
  with set_mapAssign have "e = ((a, b), (i, opp)) \<or> e \<in> set m" by fastforce
  then show "fst (snd e) < length triangles \<and>
        hasEdge (triangles ! fst (snd e)) (fst (fst e)) (snd (fst e)) (snd (snd e))"
    using assms unfolding entriesSound_def by auto
qed

lemma three_elements: "length f = 3 \<Longrightarrow> f = [f ! 0, f ! 1, f ! 2]"
  by (cases f; cases "tl f"; cases "tl (tl f)") auto

lemma entriesSound_add:
  assumes m: "entriesSound triangles m" and i: "i < length triangles" and f: "triangles ! i = f"
  shows "entriesSound triangles (addTriangleEdges m (i, f))"
proof (cases "length f = 3")
  case False
  then show ?thesis using m by (simp add: addTriangleEdges_def)
next
  case True
  from three_elements [OF True] have e: "triangles ! i = [f ! 0, f ! 1, f ! 2]"
    using f by simp
  have e1: "hasEdge (triangles ! i) (f ! 0) (f ! 1) (f ! 2)"
    and e2: "hasEdge (triangles ! i) (f ! 1) (f ! 2) (f ! 0)"
    and e3: "hasEdge (triangles ! i) (f ! 2) (f ! 0) (f ! 1)"
    unfolding e hasEdge_def by simp_all
  note s = entriesSound_assign [OF entriesSound_assign [OF entriesSound_assign [OF m i e1] i e2] i e3]
  show ?thesis
    unfolding addTriangleEdges_def prod.case by (simp only: True if_True refl s)
qed

lemma entriesSound_foldl:
  assumes "entriesSound triangles m"
    and "\<forall>x \<in> set xs. fst x < length triangles \<and> triangles ! fst x = snd x"
  shows "entriesSound triangles (foldl addTriangleEdges m xs)"
  using assms
proof (induction xs arbitrary: m)
  case Nil
  then show ?case by simp
next
  case (Cons x xs)
  from Cons.prems(2) have x: "fst x < length triangles" "triangles ! fst x = snd x"
    by simp_all
  from entriesSound_add [OF Cons.prems(1) x] have "entriesSound triangles (addTriangleEdges m x)"
    by simp
  from Cons.IH [OF this] Cons.prems(2) show ?case by simp
qed

lemma entriesSound_build: "entriesSound triangles (buildTriangleEdgeMap triangles)"
  unfolding buildTriangleEdgeMap_def
proof (rule entriesSound_foldl)
  show "entriesSound triangles []" by (simp add: entriesSound_def)
  show "\<forall>x \<in> set (enumerate 0 triangles). fst x < length triangles \<and> triangles ! fst x = snd x"
    by (auto simp: in_set_enumerate_eq)
qed

lemma unionTriangles_step:
  assumes "unionTriangles pk vs sh em (e # es) acc = Some acc'"
  shows "\<exists>acc1. unionTriangles pk vs sh em es acc1 = Some acc' \<and> unionStep pk vs sh em e acc acc1"
proof (cases "fst (snd e) \<in> fst acc")
  case True
  with assms have "unionTriangles pk vs sh em es acc = Some acc'" by simp
  moreover from True have "unionStep pk vs sh em e acc acc"
    by (simp add: unionStep_def)
  ultimately show ?thesis by blast
next
  case notUnioned: False
  with assms obtain ka kb where ka: "vertexKey pk vs (fst (fst e)) = Some ka"
    and kb: "vertexKey pk vs (snd (fst e)) = Some kb"
    by (auto split: option.splits)
  then have ra: "fst (fst e) < length vs" and rb: "snd (fst e) < length vs"
    and ka': "ka = pk (vs ! fst (fst e))" and kb': "kb = pk (vs ! snd (fst e))"
    by (auto simp: vertexKey_def split: if_splits)
  show ?thesis
  proof (cases "(ka, kb) \<in> sh")
    case False
    with assms notUnioned ka kb have "unionTriangles pk vs sh em es acc = Some acc'" by simp
    moreover from False have "unionStep pk vs sh em e acc acc"
      by (simp add: unionStep_def qualifies_def ka' kb')
    ultimately show ?thesis by blast
  next
    case inShared: True
    show ?thesis
    proof (cases "map_of em (snd (fst e), fst (fst e))")
      case None
      with assms notUnioned ka kb inShared
      have "unionTriangles pk vs sh em es acc = Some acc'" by simp
      moreover from None have "unionStep pk vs sh em e acc acc"
        by (simp add: unionStep_def qualifies_def)
      ultimately show ?thesis by blast
    next
      case (Some opposite)
      obtain j o2 where opp: "opposite = (j, o2)" by (cases opposite)
      show ?thesis
      proof (cases "j \<in> fst acc")
        case True
        with assms notUnioned ka kb inShared Some opp
        have "unionTriangles pk vs sh em es acc = Some acc'" by simp
        moreover from True Some opp have "unionStep pk vs sh em e acc acc"
          by (simp add: unionStep_def qualifies_def)
        ultimately show ?thesis by blast
      next
        case False
        let ?acc1 = "(insert j (insert (fst (snd e)) (fst acc)),
                snd acc @ [[snd (snd e), fst (fst e), o2, snd (fst e)]])"
        from assms notUnioned ka kb inShared Some opp False
        have "unionTriangles pk vs sh em es ?acc1 = Some acc'" by simp
        moreover from notUnioned False ra rb inShared Some opp
        have "unionStep pk vs sh em e acc ?acc1"
          unfolding unionStep_def ka' kb' by blast
        ultimately show ?thesis by blast
      qed
    qed
  qed
qed

lemma unionStep_mono: "unionStep pk vs sh em e acc acc1 \<Longrightarrow> fst acc \<subseteq> fst acc1"
  unfolding unionStep_def by auto

lemma unionTriangles_mono:
  "unionTriangles pk vs sh em es acc = Some acc' \<Longrightarrow> fst acc \<subseteq> fst acc'"
proof (induction es arbitrary: acc)
  case Nil
  then show ?case by simp
next
  case (Cons e es)
  from unionTriangles_step [OF Cons.prems] obtain acc1
    where r: "unionTriangles pk vs sh em es acc1 = Some acc'"
      and st: "unionStep pk vs sh em e acc acc1"
    by blast
  from unionStep_mono [OF st] Cons.IH [OF r] show ?case by (rule subset_trans)
qed

lemma unionTriangles_maximal:
  assumes "unionTriangles pk vs sh em es acc = Some acc'"
    and "e \<in> set es" and "qualifies pk vs sh em e j"
  shows "fst (snd e) \<in> fst acc' \<or> j \<in> fst acc'"
  using assms
proof (induction es arbitrary: acc)
  case Nil
  then show ?case by simp
next
  case (Cons x es)
  from unionTriangles_step [OF Cons.prems(1)] obtain acc1
    where r: "unionTriangles pk vs sh em es acc1 = Some acc'"
      and st: "unionStep pk vs sh em x acc acc1"
    by blast
  show ?case
  proof (cases "e = x")
    case False
    with Cons.prems(2) have "e \<in> set es" by simp
    from Cons.IH [OF r this Cons.prems(3)] show ?thesis .
  next
    case True
    note sub = unionTriangles_mono [OF r]
    from st have "fst (snd e) \<in> fst acc1 \<or> j \<in> fst acc1"
      unfolding unionStep_def
    proof (elim disjE conjE exE)
      assume "acc1 = acc"
        and "\<forall>j. qualifies pk vs sh em x j \<longrightarrow> fst (snd x) \<in> fst acc \<or> j \<in> fst acc"
      with Cons.prems(3) True show ?thesis by blast
    next
      fix j' o2 :: nat
      assume "acc1 = (insert j' (insert (fst (snd x)) (fst acc)),
          snd acc @ [[snd (snd x), fst (fst x), o2, snd (fst x)]])"
      with True show ?thesis by simp
    qed
    with sub show ?thesis by blast
  qed
qed

lemma mergedBefore_Cons:
  "mergedBefore (k # ks) (m # ms) n =
     (if k < n then set (mergeFaces m) else {}) \<union> mergedBefore ks ms n"
  by (simp add: mergedBefore_def)

lemma mergedBefore_none: "\<forall>k \<in> set ks. n \<le> k \<Longrightarrow> mergedBefore ks ms n = {}"
  by (auto simp: mergedBefore_def dest!: set_zip_leftD)

lemma unionTriangles_walk:
  assumes "unionTriangles pk vs sh em es acc = Some acc'" and "em = pre @ es"
  shows "\<exists>ks ms. snd acc' = snd acc @ map (\<lambda>m. snd (snd m)) ms \<and>
           fst acc' = fst acc \<union> set (concat (map mergeFaces ms)) \<and>
           distinct (concat (map mergeFaces ms)) \<and>
           set (concat (map mergeFaces ms)) \<inter> fst acc = {} \<and>
           (\<forall>m \<in> set ms. entryMerge pk vs sh em m) \<and>
           sorted_wrt (<) ks \<and>
           (\<forall>k \<in> set ks. length pre \<le> k \<and> k < length em) \<and>
           list_all2 (\<lambda>k m. mergeOf em (em ! k) m) ks ms \<and>
           (\<forall>n. length pre \<le> n \<and> n < length em \<longrightarrow>
              (n \<in> set ks \<longleftrightarrow> greedyAt pk vs sh em (fst acc \<union> mergedBefore ks ms n) n))"
  using assms
proof (induction es arbitrary: acc pre)
  case Nil
  then have "acc' = acc" "length pre = length em" by simp_all
  then show ?case by (intro exI [of _ "[]"]) auto
next
  case (Cons e es)
  let ?p = "length pre"
  from Cons.prems(2) have em': "em = (pre @ [e]) @ es" and at: "em ! ?p = e"
    and e: "e \<in> set em" and plt: "?p < length em"
    by simp_all
  from unionTriangles_step [OF Cons.prems(1)] obtain acc1
    where r: "unionTriangles pk vs sh em es acc1 = Some acc'"
      and st: "unionStep pk vs sh em e acc acc1"
    by blast
  from Cons.IH [OF r em'] obtain ks ms
    where out: "snd acc' = snd acc1 @ map (\<lambda>m. snd (snd m)) ms"
      and un: "fst acc' = fst acc1 \<union> set (concat (map mergeFaces ms))"
      and di: "distinct (concat (map mergeFaces ms))"
      and dj: "set (concat (map mergeFaces ms)) \<inter> fst acc1 = {}"
      and ok: "\<forall>m \<in> set ms. entryMerge pk vs sh em m"
      and so: "sorted_wrt (<) ks"
      and rg: "\<forall>k \<in> set ks. Suc ?p \<le> k \<and> k < length em"
      and la: "list_all2 (\<lambda>k m. mergeOf em (em ! k) m) ks ms"
      and gr: "\<forall>n. Suc ?p \<le> n \<and> n < length em \<longrightarrow>
              (n \<in> set ks \<longleftrightarrow> greedyAt pk vs sh em (fst acc1 \<union> mergedBefore ks ms n) n)"
    by auto
  from rg have notin: "?p \<notin> set ks" by auto
  from st show ?case
    unfolding unionStep_def
  proof (elim disjE conjE exE)
    assume same: "acc1 = acc"
      and no: "\<forall>j. qualifies pk vs sh em e j \<longrightarrow> fst (snd e) \<in> fst acc \<or> j \<in> fst acc"
    have here: "\<not> greedyAt pk vs sh em (fst acc \<union> mergedBefore ks ms ?p) ?p"
      unfolding greedyAt_def at using no by blast
    have greedy: "\<forall>n. ?p \<le> n \<and> n < length em \<longrightarrow>
        (n \<in> set ks \<longleftrightarrow> greedyAt pk vs sh em (fst acc \<union> mergedBefore ks ms n) n)"
    proof (intro allI impI)
      fix n assume n: "?p \<le> n \<and> n < length em"
      show "n \<in> set ks \<longleftrightarrow> greedyAt pk vs sh em (fst acc \<union> mergedBefore ks ms n) n"
      proof (cases "n = ?p")
        case True
        with notin here show ?thesis by simp
      next
        case False
        with n have "Suc ?p \<le> n \<and> n < length em" by simp
        with gr same show ?thesis by simp
      qed
    qed
    from rg have rg': "\<forall>k \<in> set ks. ?p \<le> k \<and> k < length em" by auto
    from out un di dj ok so rg' la greedy show ?thesis
      unfolding same by blast
  next
    fix j o2 :: nat
    let ?i = "fst (snd e)"
    let ?q = "[snd (snd e), fst (fst e), o2, snd (fst e)]"
    let ?m = "(?i, j, ?q)"
    assume ni: "?i \<notin> fst acc" and nj: "j \<notin> fst acc"
      and ra: "fst (fst e) < length vs" and rb: "snd (fst e) < length vs"
      and sh: "(pk (vs ! fst (fst e)), pk (vs ! snd (fst e))) \<in> sh"
      and opp: "map_of em (snd (fst e), fst (fst e)) = Some (j, o2)"
      and acc1: "acc1 = (insert j (insert ?i (fst acc)), snd acc @ [?q])"
    from opp have oppIn: "((snd (fst e), fst (fst e)), (j, o2)) \<in> set em"
      by (rule map_of_SomeD)
    from e have eIn: "((fst (fst e), snd (fst e)), (?i, snd (snd e))) \<in> set em"
      by simp
    have em: "entryMerge pk vs sh em ?m"
      unfolding entryMerge_def using eIn oppIn ra rb sh by auto
    have faces: "set (mergeFaces ?m) = {?i, j}" "distinct (mergeFaces ?m)"
      by (auto simp: mergeFaces_def)
    have c1: "snd acc' = snd acc @ map (\<lambda>m. snd (snd m)) (?m # ms)"
      using out acc1 by simp
    have c2: "fst acc' = fst acc \<union> set (concat (map mergeFaces (?m # ms)))"
      using un acc1 faces(1) by auto
    have c3: "distinct (concat (map mergeFaces (?m # ms)))"
      using di dj faces acc1 by auto
    have c4: "set (concat (map mergeFaces (?m # ms))) \<inter> fst acc = {}"
      using dj faces(1) ni nj acc1 by auto
    have c5: "\<forall>m \<in> set (?m # ms). entryMerge pk vs sh em m"
      using ok em by simp
    have c6: "sorted_wrt (<) (?p # ks)"
      using so rg by auto
    have c7: "\<forall>k \<in> set (?p # ks). ?p \<le> k \<and> k < length em"
      using rg plt by auto
    have mo: "mergeOf em (em ! ?p) ?m"
      unfolding at mergeOf_def using opp by simp
    have c8: "list_all2 (\<lambda>k m. mergeOf em (em ! k) m) (?p # ks) (?m # ms)"
      using la mo by simp
    have q: "qualifies pk vs sh em e j"
      unfolding qualifies_def using ra rb sh opp by simp
    have none: "mergedBefore (?p # ks) (?m # ms) ?p = {}"
      by (rule mergedBefore_none) (use rg in auto)
    have here: "greedyAt pk vs sh em (fst acc \<union> mergedBefore (?p # ks) (?m # ms) ?p) ?p"
      unfolding greedyAt_def at none using q ni nj by auto
    have c9: "\<forall>n. ?p \<le> n \<and> n < length em \<longrightarrow>
        (n \<in> set (?p # ks) \<longleftrightarrow>
           greedyAt pk vs sh em (fst acc \<union> mergedBefore (?p # ks) (?m # ms) n) n)"
    proof (intro allI impI)
      fix n assume n: "?p \<le> n \<and> n < length em"
      show "n \<in> set (?p # ks) \<longleftrightarrow>
           greedyAt pk vs sh em (fst acc \<union> mergedBefore (?p # ks) (?m # ms) n) n"
      proof (cases "n = ?p")
        case True
        with here show ?thesis by simp
      next
        case False
        with n have n': "Suc ?p \<le> n \<and> n < length em" and lt: "?p < n" by simp_all
        have "fst acc \<union> mergedBefore (?p # ks) (?m # ms) n = fst acc1 \<union> mergedBefore ks ms n"
          unfolding mergedBefore_Cons acc1 using lt faces(1) by auto
        with gr n' False show ?thesis by simp
      qed
    qed
    from c1 c2 c3 c4 c5 c6 c7 c8 c9 show ?thesis by blast
  qed
qed


lemma entryMerge_mergesPair:
  assumes "entriesSound triangles em" and "entryMerge pk vs sh em m"
  shows "mergesPair pk vs triangles sh m"
proof -
  from assms(2) obtain a b o1 o2 where q: "snd (snd m) = [o1, a, o2, b]"
    and e1: "((a, b), (fst m, o1)) \<in> set em" and e2: "((b, a), (fst (snd m), o2)) \<in> set em"
    and r: "a < length vs" "b < length vs" "(pk (vs ! a), pk (vs ! b)) \<in> sh"
    unfolding entryMerge_def by blast
  from assms(1) e1 have "fst m < length triangles \<and> hasEdge (triangles ! fst m) a b o1"
    unfolding entriesSound_def by fastforce
  moreover from assms(1) e2
  have "fst (snd m) < length triangles \<and> hasEdge (triangles ! fst (snd m)) b a o2"
    unfolding entriesSound_def by fastforce
  ultimately show ?thesis
    unfolding mergesPair_def using q r by blast
qed

lemma unionTriangles_total:
  assumes "\<forall>e \<in> set es. fst (fst e) < length vs \<and> snd (fst e) < length vs"
  shows "unionTriangles pk vs sh em es acc \<noteq> None"
  using assms
proof (induction es arbitrary: acc)
  case Nil
  show ?case by simp
next
  case (Cons e es)
  then have k: "vertexKey pk vs (fst (fst e)) = Some (pk (vs ! fst (fst e)))"
    "vertexKey pk vs (snd (fst e)) = Some (pk (vs ! snd (fst e)))"
    and rest: "\<And>acc. unionTriangles pk vs sh em es acc \<noteq> None"
    by (simp_all add: vertexKey_def)
  show ?case
    using rest by (simp add: k split: option.splits)
qed

lemma hasEdge_members:
  "hasEdge f a b opp \<Longrightarrow> length f = 3 \<and> a \<in> set f \<and> b \<in> set f"
  by (auto simp: hasEdge_def)

lemma edgeMap_in_range:
  assumes "trianglesInRange vs triangles" and "e \<in> set (buildTriangleEdgeMap triangles)"
  shows "fst (fst e) < length vs \<and> snd (fst e) < length vs"
proof -
  from entriesSound_build [of triangles] assms(2)
  have i: "fst (snd e) < length triangles"
    and h: "hasEdge (triangles ! fst (snd e)) (fst (fst e)) (snd (fst e)) (snd (snd e))"
    unfolding entriesSound_def by blast+
  from i have "triangles ! fst (snd e) \<in> set triangles" by simp
  with assms(1) hasEdge_members [OF h] show ?thesis
    by (auto simp: trianglesInRange_def list_all_iff)
qed

lemma mergesPair_length: "mergesPair pk vs triangles sh m \<Longrightarrow> length (snd (snd m)) = 4"
  unfolding mergesPair_def by auto

lemma map_of_mapAssign: "map_of (mapAssign k v m) = (map_of m)(k \<mapsto> v)"
  by (induction m) (auto simp: fun_eq_iff)

lemma faceHalfEdges_three:
  assumes "length f = 3"
  shows "faceHalfEdges f = [(f ! 0, f ! 1), (f ! 1, f ! 2), (f ! 2, f ! 0)]"
proof -
  have "[0..<3] = [0, 1, 2 :: nat]"
    by (simp add: upt_rec)
  then show ?thesis
    by (simp add: faceHalfEdges_def halfEdgeAt_def assms numeral_2_eq_2)
qed

lemma hasEdge_halfEdge: "hasEdge f a b opp \<Longrightarrow> length f = 3 \<and> (a, b) \<in> set (faceHalfEdges f)"
  by (auto simp: hasEdge_def faceHalfEdges_three)

lemma addTriangleEdges_untouched:
  "\<not> touches x k \<Longrightarrow> map_of (addTriangleEdges m x) k = map_of m k"
  by (cases x) (auto simp: addTriangleEdges_def touches_def map_of_mapAssign faceHalfEdges_three)

lemma foldl_addTriangleEdges_untouched:
  "\<forall>x \<in> set xs. \<not> touches x k \<Longrightarrow> map_of (foldl addTriangleEdges m xs) k = map_of m k"
  by (induction xs arbitrary: m) (simp_all add: addTriangleEdges_untouched)

lemma addTriangleEdges_own:
  "hasEdge f a b opp \<Longrightarrow> map_of (addTriangleEdges m (i, f)) (a, b) = Some (i, opp)"
  by (auto simp: addTriangleEdges_def hasEdge_def map_of_mapAssign)

lemma edgeLess_trans: "edgeLess x y \<Longrightarrow> edgeLess y z \<Longrightarrow> edgeLess x z"
  by (auto simp: edgeLess_def)

lemma edgeLess_total: "x \<noteq> y \<Longrightarrow> \<not> edgeLess x y \<Longrightarrow> edgeLess y x"
  by (cases x; cases y) (auto simp: edgeLess_def)

lemma sorted_mapAssign:
  assumes "sorted_wrt (\<lambda>x y. edgeLess (fst x) (fst y)) m"
  shows "sorted_wrt (\<lambda>x y. edgeLess (fst x) (fst y)) (mapAssign k v m)"
  using assms
proof (induction m)
  case Nil
  show ?case by simp
next
  case (Cons entry rest)
  from Cons.prems have above: "\<forall>y \<in> set rest. edgeLess (fst entry) (fst y)"
    and rest: "sorted_wrt (\<lambda>x y. edgeLess (fst x) (fst y)) rest"
    by simp_all
  show ?case
  proof (cases "k = fst entry")
    case True
    with above rest show ?thesis by simp
  next
    case ne: False
    show ?thesis
    proof (cases "edgeLess k (fst entry)")
      case True
      with above have "\<forall>y \<in> set rest. edgeLess k (fst y)"
        using edgeLess_trans by blast
      with True ne above rest show ?thesis by simp
    next
      case False
      from edgeLess_total [OF ne False] have lt: "edgeLess (fst entry) k" .
      have "\<forall>y \<in> set (mapAssign k v rest). edgeLess (fst entry) (fst y)"
      proof
        fix y assume "y \<in> set (mapAssign k v rest)"
        with set_mapAssign have "y = (k, v) \<or> y \<in> set rest" by fastforce
        with lt above show "edgeLess (fst entry) (fst y)" by auto
      qed
      with ne False Cons.IH [OF rest] show ?thesis by simp
    qed
  qed
qed

lemma sorted_addTriangleEdges:
  "sorted_wrt (\<lambda>x y. edgeLess (fst x) (fst y)) m \<Longrightarrow>
   sorted_wrt (\<lambda>x y. edgeLess (fst x) (fst y)) (addTriangleEdges m x)"
  by (cases x) (simp add: addTriangleEdges_def sorted_mapAssign)

lemma sorted_foldl_addTriangleEdges:
  "sorted_wrt (\<lambda>x y. edgeLess (fst x) (fst y)) m \<Longrightarrow>
   sorted_wrt (\<lambda>x y. edgeLess (fst x) (fst y)) (foldl addTriangleEdges m xs)"
  by (induction xs arbitrary: m) (simp_all add: sorted_addTriangleEdges)

lemma sorted_build:
  "sorted_wrt (\<lambda>x y. edgeLess (fst x) (fst y)) (buildTriangleEdgeMap triangles)"
  unfolding buildTriangleEdgeMap_def by (rule sorted_foldl_addTriangleEdges) simp

lemma touches_hasEdge:
  assumes "touches x (a, b)"
  shows "\<exists>opp. hasEdge (snd x) a b opp"
proof -
  from assms have three: "length (snd x) = 3" and e: "(a, b) \<in> set (faceHalfEdges (snd x))"
    by (simp_all add: touches_def)
  from e have "(a, b) = (snd x ! 0, snd x ! 1) \<or> (a, b) = (snd x ! 1, snd x ! 2) \<or>
      (a, b) = (snd x ! 2, snd x ! 0)"
    unfolding faceHalfEdges_three [OF three] by simp
  moreover note three_elements [OF three]
  ultimately show ?thesis
    unfolding hasEdge_def by (metis prod.inject)
qed

lemma edgeMap_last:
  assumes i: "i < length triangles"
    and h: "hasEdge (triangles ! i) a b opp"
    and last: "\<forall>i' o'. i < i' \<and> i' < length triangles \<longrightarrow> \<not> hasEdge (triangles ! i') a b o'"
  shows "map_of (buildTriangleEdgeMap triangles) (a, b) = Some (i, opp)"
proof -
  define pre where "pre = take i (enumerate 0 triangles)"
  define post where "post = drop (Suc i) (enumerate 0 triangles)"
  have "enumerate 0 triangles =
      take i (enumerate 0 triangles) @ enumerate 0 triangles ! i # drop (Suc i) (enumerate 0 triangles)"
    by (rule id_take_nth_drop) (simp add: i)
  moreover have "enumerate 0 triangles ! i = (i, triangles ! i)"
    using i by (simp add: nth_enumerate_eq)
  ultimately have split: "enumerate 0 triangles = pre @ (i, triangles ! i) # post"
    unfolding pre_def post_def by simp
  have later: "\<forall>x \<in> set post. \<not> touches x (a, b)"
  proof
    fix x assume "x \<in> set post"
    then obtain n where n: "n < length post" and x: "x = post ! n"
      by (auto simp: in_set_conv_nth)
    from n have j: "Suc i + n < length triangles"
      unfolding post_def by simp
    with x have xj: "x = (Suc i + n, triangles ! (Suc i + n))"
      unfolding post_def by (simp add: nth_enumerate_eq)
    show "\<not> touches x (a, b)"
    proof
      assume "touches x (a, b)"
      from touches_hasEdge [OF this] obtain o' where "hasEdge (triangles ! (Suc i + n)) a b o'"
        unfolding xj by auto
      with last j show False by auto
    qed
  qed
  have "map_of (buildTriangleEdgeMap triangles) (a, b) =
      map_of (foldl addTriangleEdges
        (addTriangleEdges (foldl addTriangleEdges [] pre) (i, triangles ! i)) post) (a, b)"
    unfolding buildTriangleEdgeMap_def split by simp
  also have "\<dots> = map_of (addTriangleEdges (foldl addTriangleEdges [] pre)
      (i, triangles ! i)) (a, b)"
    by (rule foldl_addTriangleEdges_untouched [OF later])
  also have "\<dots> = Some (i, opp)"
    by (rule addTriangleEdges_own [OF h])
  finally show ?thesis .
qed

lemma edgeMapOf_build: "edgeMapOf triangles (buildTriangleEdgeMap triangles)"
  unfolding edgeMapOf_def
proof (intro conjI allI impI)
  show "sorted_wrt (\<lambda>x y. fst (fst x) < fst (fst y) \<or>
                   (fst (fst x) = fst (fst y) \<and> snd (fst x) < snd (fst y)))
          (buildTriangleEdgeMap triangles)"
    using sorted_build [of triangles] unfolding edgeLess_def .
  show "\<forall>e \<in> set (buildTriangleEdgeMap triangles). fst (snd e) < length triangles \<and>
        hasEdge (triangles ! fst (snd e)) (fst (fst e)) (snd (fst e)) (snd (snd e))"
    using entriesSound_build [of triangles] unfolding entriesSound_def .
next
  fix i a b opp
  assume "i < length triangles \<and> hasEdge (triangles ! i) a b opp \<and>
        (\<forall>i' o'. i < i' \<and> i' < length triangles \<longrightarrow> \<not> hasEdge (triangles ! i') a b o')"
  then show "map_of (buildTriangleEdgeMap triangles) (a, b) = Some (i, opp)"
    using edgeMap_last by blast
qed

lemma edgeMap_complete:
  assumes u: "edgesUnshared triangles" and i: "i < length triangles"
    and h: "hasEdge (triangles ! i) a b opp"
  shows "map_of (buildTriangleEdgeMap triangles) (a, b) = Some (i, opp)"
proof (rule edgeMap_last [OF i h], intro allI impI notI)
  fix i' o'
  assume r: "i < i' \<and> i' < length triangles" and h': "hasEdge (triangles ! i') a b o'"
  from hasEdge_halfEdge [OF h] hasEdge_halfEdge [OF h']
  have "length (triangles ! i) = 3" "length (triangles ! i') = 3"
    "(a, b) \<in> set (faceHalfEdges (triangles ! i)) \<inter> set (faceHalfEdges (triangles ! i'))"
    by simp_all
  with u [unfolded edgesUnshared_def, rule_format, of i i'] i r show False
    by auto
qed

lemma mergeOf_unique: "mergeOf em e m \<Longrightarrow> mergeOf em e m' \<Longrightarrow> m = m'"
  by (cases m; cases m') (auto simp: mergeOf_def)

lemma mergedBefore_char:
  assumes "list_all2 (\<lambda>k m. mergeOf em (em ! k) m) ks ms"
  shows "mergedBefore ks ms n =
     (\<Union>k \<in> {k \<in> set ks. k < n}. {i. \<exists>m. mergeOf em (em ! k) m \<and> i \<in> set (mergeFaces m)})"
proof -
  define F where "F k = {i. \<exists>m. mergeOf em (em ! k) m \<and> i \<in> set (mergeFaces m)}" for k
  from assms have "mergedBefore ks ms n = (\<Union>k \<in> {k \<in> set ks. k < n}. F k)"
  proof (induction rule: list_all2_induct)
    case Nil
    show ?case by (simp add: mergedBefore_def)
  next
    case (Cons k ks m ms)
    have F: "F k = set (mergeFaces m)"
      unfolding F_def using Cons.hyps(1) mergeOf_unique by blast
    have "{k' \<in> set (k # ks). k' < n} = (if k < n then {k} else {}) \<union> {k' \<in> set ks. k' < n}"
      by auto
    then have "(\<Union>k \<in> {k' \<in> set (k # ks). k' < n}. F k) =
        (if k < n then set (mergeFaces m) else {}) \<union> (\<Union>k \<in> {k' \<in> set ks. k' < n}. F k)"
      by (simp add: F)
    with Cons.IH show ?case
      unfolding mergedBefore_Cons by simp
  qed
  then show ?thesis
    unfolding F_def .
qed

lemma list_all2_functional:
  assumes "list_all2 P xs ys" and "list_all2 P xs zs"
    and "\<And>x y z. P x y \<Longrightarrow> P x z \<Longrightarrow> y = z"
  shows "ys = zs"
  using assms(1, 2)
proof (induction arbitrary: zs rule: list_all2_induct)
  case Nil
  then show ?case by simp
next
  case (Cons x xs y ys)
  from Cons.prems obtain z zs' where zs: "zs = z # zs'" and z: "P x z" and r: "list_all2 P xs zs'"
    by (cases zs) auto
  from assms(3) [OF Cons.hyps(1) z] Cons.IH [OF r] show ?case
    unfolding zs by simp
qed

lemma greedyWalk_unique:
  assumes a: "greedyWalk pk vs sh em ks ms" and b: "greedyWalk pk vs sh em ks' ms'"
  shows "ks = ks' \<and> ms = ms'"
proof -
  from a have sa: "sorted_wrt (<) ks"
    and la: "list_all2 (\<lambda>k m. mergeOf em (em ! k) m) ks ms"
    and ga: "\<And>n. n < length em \<Longrightarrow>
        n \<in> set ks \<longleftrightarrow> greedyAt pk vs sh em (mergedBefore ks ms n) n"
    and ra: "\<And>k. k \<in> set ks \<Longrightarrow> k < length em"
    unfolding greedyWalk_def by blast+
  from b have sb: "sorted_wrt (<) ks'"
    and lb: "list_all2 (\<lambda>k m. mergeOf em (em ! k) m) ks' ms'"
    and gb: "\<And>n. n < length em \<Longrightarrow>
        n \<in> set ks' \<longleftrightarrow> greedyAt pk vs sh em (mergedBefore ks' ms' n) n"
    and rb: "\<And>k. k \<in> set ks' \<Longrightarrow> k < length em"
    unfolding greedyWalk_def by blast+
  have agree: "\<forall>k < n. k \<in> set ks \<longleftrightarrow> k \<in> set ks'" if "n \<le> length em" for n
    using that
  proof (induction n)
    case 0
    show ?case by simp
  next
    case (Suc n)
    then have ih: "\<forall>k < n. k \<in> set ks \<longleftrightarrow> k \<in> set ks'" and n: "n < length em"
      by simp_all
    from ih have "{k \<in> set ks. k < n} = {k \<in> set ks'. k < n}" by blast
    then have "mergedBefore ks ms n = mergedBefore ks' ms' n"
      unfolding mergedBefore_char [OF la] mergedBefore_char [OF lb] by simp
    with ga [OF n] gb [OF n] have "n \<in> set ks \<longleftrightarrow> n \<in> set ks'" by simp
    with ih show ?case by (simp add: less_Suc_eq)
  qed
  have "set ks = set ks'"
  proof (rule set_eqI)
    fix k
    show "k \<in> set ks \<longleftrightarrow> k \<in> set ks'"
    proof (cases "k < length em")
      case True
      with agree [of "length em"] show ?thesis by simp
    next
      case False
      with ra rb show ?thesis by blast
    qed
  qed
  with sa sb have ks: "ks = ks'"
    by (simp add: strict_sorted_equal)
  from la lb have "ms = ms'"
    unfolding ks by (rule list_all2_functional) (rule mergeOf_unique)
  with ks show ?thesis by simp
qed

text \<open>
  C1 (as amended). \<open>recoverQuads\<close> returns when the vertex indices of the triangles are in
  range. Its edge map holds the directed edges of the 3-vertex faces in ascending order, each
  with the last triangle of the list that has it and the vertex opposite to it. The map is
  walked in that order, and the entry of an edge \<open>(a, b)\<close> makes a quad exactly when the
  position-key pair of the edge is in \<open>sharedQuadEdges\<close>, the map has the opposite edge
  \<open>(b, a)\<close>, and neither the triangle of the entry nor the triangle across was merged at an
  earlier entry; the quad is \<open>[t1.opposite, a, t2.opposite, b]\<close>. What is appended is these
  quads, in the order of the walk, followed by the faces that were not merged, unchanged
  and in input order. So every quad comes from two adjacent triangles whose shared edge has
  its key pair in \<open>sharedQuadEdges\<close>; no triangle is merged into two quads; for every entry
  of the edge map that qualifies, the triangle of the entry or the triangle across is merged
  (the merging is greedy, not exhaustive); when no directed edge belongs to two triangles
  this holds for every pair of adjacent triangles whose shared edge has its key pair in
  \<open>sharedQuadEdges\<close>; and if every input face has 3 vertices every appended face has 3 or 4.
\<close>

theorem recoverQuads_greedy:
  "(trianglesInRange vertices triangles \<longrightarrow>
      recoverQuads PositionKey vertices triangles sharedQuadEdges triangleAndQuads \<noteq> None) \<and>
   edgeMapOf triangles (buildTriangleEdgeMap triangles) \<and>
   (\<forall>out. recoverQuads PositionKey vertices triangles sharedQuadEdges triangleAndQuads = Some out \<longrightarrow>
      (\<exists>merges ks.
         out = triangleAndQuads @ map (\<lambda>m. snd (snd m)) merges @
           map (\<lambda>i. triangles ! i)
             (filter (\<lambda>i. i \<notin> set (concat (map mergeFaces merges))) [0..<length triangles]) \<and>
         greedyWalk PositionKey vertices sharedQuadEdges (buildTriangleEdgeMap triangles) ks merges \<and>
         (\<forall>m \<in> set merges. mergesPair PositionKey vertices triangles sharedQuadEdges m) \<and>
         distinct (concat (map mergeFaces merges)) \<and>
         (\<forall>e \<in> set (buildTriangleEdgeMap triangles). \<forall>j.
            qualifies PositionKey vertices sharedQuadEdges (buildTriangleEdgeMap triangles) e j \<longrightarrow>
              fst (snd e) \<in> set (concat (map mergeFaces merges)) \<or>
              j \<in> set (concat (map mergeFaces merges))) \<and>
         (edgesUnshared triangles \<longrightarrow>
            (\<forall>i j a b o1 o2.
               i < length triangles \<and> j < length triangles \<and>
               hasEdge (triangles ! i) a b o1 \<and> hasEdge (triangles ! j) b a o2 \<and>
               a < length vertices \<and> b < length vertices \<and>
               (PositionKey (vertices ! a), PositionKey (vertices ! b)) \<in> sharedQuadEdges \<longrightarrow>
                 i \<in> set (concat (map mergeFaces merges)) \<or>
                 j \<in> set (concat (map mergeFaces merges)))) \<and>
         ((\<forall>f \<in> set triangles. length f = 3) \<longrightarrow>
            (\<forall>f \<in> set (drop (length triangleAndQuads) out). length f = 3 \<or> length f = 4))))"
proof (intro conjI impI allI)
  let ?em = "buildTriangleEdgeMap triangles"
  assume "trianglesInRange vertices triangles"
  then have "\<forall>e \<in> set ?em. fst (fst e) < length vertices \<and> snd (fst e) < length vertices"
    using edgeMap_in_range by blast
  from unionTriangles_total [OF this]
  show "recoverQuads PositionKey vertices triangles sharedQuadEdges triangleAndQuads \<noteq> None"
    by (auto simp: recoverQuads_def Let_def split: option.splits)
next
  show "edgeMapOf triangles (buildTriangleEdgeMap triangles)"
    by (rule edgeMapOf_build)
next
  let ?em = "buildTriangleEdgeMap triangles"
  fix out
  assume "recoverQuads PositionKey vertices triangles sharedQuadEdges triangleAndQuads = Some out"
  then obtain U new where
    run: "unionTriangles PositionKey vertices sharedQuadEdges ?em ?em ({}, triangleAndQuads) =
      Some (U, new)"
    and out: "out = new @ map (\<lambda>i. triangles ! i) (filter (\<lambda>i. i \<notin> U) [0..<length triangles])"
    by (auto simp: recoverQuads_def Let_def split: option.splits)
  have "?em = [] @ ?em" by simp
  from unionTriangles_walk [OF run this] obtain ks merges
    where new: "new = triangleAndQuads @ map (\<lambda>m. snd (snd m)) merges"
      and U: "U = set (concat (map mergeFaces merges))"
      and di: "distinct (concat (map mergeFaces merges))"
      and ok: "\<forall>m \<in> set merges. entryMerge PositionKey vertices sharedQuadEdges ?em m"
      and so: "sorted_wrt (<) ks"
      and rg: "\<forall>k \<in> set ks. k < length ?em"
      and la: "list_all2 (\<lambda>k m. mergeOf ?em (?em ! k) m) ks merges"
      and gr: "\<forall>n. n < length ?em \<longrightarrow>
          (n \<in> set ks \<longleftrightarrow>
             greedyAt PositionKey vertices sharedQuadEdges ?em (mergedBefore ks merges n) n)"
    by auto
  have walk: "greedyWalk PositionKey vertices sharedQuadEdges ?em ks merges"
    unfolding greedyWalk_def using so rg la gr by simp
  have pairs: "\<forall>m \<in> set merges. mergesPair PositionKey vertices triangles sharedQuadEdges m"
    using ok entryMerge_mergesPair [OF entriesSound_build] by blast
  have maxi: "\<forall>e \<in> set ?em. \<forall>j.
      qualifies PositionKey vertices sharedQuadEdges ?em e j \<longrightarrow>
        fst (snd e) \<in> set (concat (map mergeFaces merges)) \<or>
        j \<in> set (concat (map mergeFaces merges))"
    using unionTriangles_maximal [OF run] unfolding U by auto
  have eq: "out = triangleAndQuads @ map (\<lambda>m. snd (snd m)) merges @
      map (\<lambda>i. triangles ! i)
        (filter (\<lambda>i. i \<notin> set (concat (map mergeFaces merges))) [0..<length triangles])"
    unfolding out new U by simp
  have sizes: "\<forall>f \<in> set (drop (length triangleAndQuads) out). length f = 3 \<or> length f = 4"
    if three: "\<forall>f \<in> set triangles. length f = 3"
  proof
    fix f assume "f \<in> set (drop (length triangleAndQuads) out)"
    then have "f \<in> set (map (\<lambda>m. snd (snd m)) merges) \<or>
        f \<in> set (map (\<lambda>i. triangles ! i)
          (filter (\<lambda>i. i \<notin> set (concat (map mergeFaces merges))) [0..<length triangles]))"
      unfolding eq by auto
    then show "length f = 3 \<or> length f = 4"
    proof
      assume "f \<in> set (map (\<lambda>m. snd (snd m)) merges)"
      then obtain m where "m \<in> set merges" "f = snd (snd m)" by auto
      with pairs mergesPair_length show ?thesis by blast
    next
      assume "f \<in> set (map (\<lambda>i. triangles ! i)
          (filter (\<lambda>i. i \<notin> set (concat (map mergeFaces merges))) [0..<length triangles]))"
      then obtain i where "i < length triangles" "f = triangles ! i" by auto
      then have "f \<in> set triangles" by simp
      with three show ?thesis by blast
    qed
  qed
  have manifold: "i \<in> set (concat (map mergeFaces merges)) \<or>
      j \<in> set (concat (map mergeFaces merges))"
    if u: "edgesUnshared triangles"
      and ij: "i < length triangles" "j < length triangles"
      and h1: "hasEdge (triangles ! i) a b o1" and h2: "hasEdge (triangles ! j) b a o2"
      and r: "a < length vertices" "b < length vertices"
      and k: "(PositionKey (vertices ! a), PositionKey (vertices ! b)) \<in> sharedQuadEdges"
    for i j a b o1 o2
  proof -
    from edgeMap_complete [OF u ij(1) h1] have "((a, b), (i, o1)) \<in> set ?em"
      by (rule map_of_SomeD)
    moreover from edgeMap_complete [OF u ij(2) h2] r k
    have "qualifies PositionKey vertices sharedQuadEdges ?em ((a, b), (i, o1)) j"
      by (simp add: qualifies_def)
    ultimately show ?thesis
      using maxi by fastforce
  qed
  from eq walk pairs di maxi manifold sizes
  show "\<exists>merges ks.
       out = triangleAndQuads @ map (\<lambda>m. snd (snd m)) merges @
         map (\<lambda>i. triangles ! i)
           (filter (\<lambda>i. i \<notin> set (concat (map mergeFaces merges))) [0..<length triangles]) \<and>
       greedyWalk PositionKey vertices sharedQuadEdges (buildTriangleEdgeMap triangles) ks merges \<and>
       (\<forall>m \<in> set merges. mergesPair PositionKey vertices triangles sharedQuadEdges m) \<and>
       distinct (concat (map mergeFaces merges)) \<and>
       (\<forall>e \<in> set (buildTriangleEdgeMap triangles). \<forall>j.
          qualifies PositionKey vertices sharedQuadEdges (buildTriangleEdgeMap triangles) e j \<longrightarrow>
            fst (snd e) \<in> set (concat (map mergeFaces merges)) \<or>
            j \<in> set (concat (map mergeFaces merges))) \<and>
       (edgesUnshared triangles \<longrightarrow>
          (\<forall>i j a b o1 o2.
             i < length triangles \<and> j < length triangles \<and>
             hasEdge (triangles ! i) a b o1 \<and> hasEdge (triangles ! j) b a o2 \<and>
             a < length vertices \<and> b < length vertices \<and>
             (PositionKey (vertices ! a), PositionKey (vertices ! b)) \<in> sharedQuadEdges \<longrightarrow>
               i \<in> set (concat (map mergeFaces merges)) \<or>
               j \<in> set (concat (map mergeFaces merges)))) \<and>
       ((\<forall>f \<in> set triangles. length f = 3) \<longrightarrow>
          (\<forall>f \<in> set (drop (length triangleAndQuads) out). length f = 3 \<or> length f = 4))"
    by (intro exI [of _ merges] exI [of _ ks] conjI) blast+
qed

lemma fan_edgeMap:
  "buildTriangleEdgeMap [[0, 1, 2], [1, 0, 3], [2, 1, 4]] =
     [((0, 1), 0, 2), ((0, 3), 1, 1), ((1, 0), 1, 3), ((1, 2), 0, 0), ((1, 4), 2, 2),
      ((2, 0), 0, 1), ((2, 1), 2, 4), ((3, 1), 1, 0), ((4, 2), 2, 1)]"
  by (simp add: buildTriangleEdgeMap_def enumerate_eq_zip upt_rec addTriangleEdges_def edgeLess_def)

lemma fan_recoverQuads:
  "recoverQuads (\<lambda>v. v) [0, 1, 2, 3, 4 :: nat] [[0, 1, 2], [1, 0, 3], [2, 1, 4]] {(0, 1), (1, 2)} [] =
     Some [[2, 0, 3, 1], [2, 1, 4]]"
  unfolding recoverQuads_def fan_edgeMap
  by (simp add: vertexKey_def upt_rec)

text \<open>
  On the fan of three triangles the walk merges at the first entry only, and no other walk
  is greedy: the two inner edges both qualify, and the entry of \<open>(0, 1)\<close> comes first.
\<close>

lemma fan_walk:
  "greedyWalk (\<lambda>v. v) [0, 1, 2, 3, 4 :: nat] {(0, 1), (1, 2)}
     (buildTriangleEdgeMap [[0, 1, 2], [1, 0, 3], [2, 1, 4]]) [0] [(0, 1, [2, 0, 3, 1])]"
  unfolding fan_edgeMap greedyWalk_def
proof (intro conjI allI impI)
  let ?em = "[((0, 1), 0, 2), ((0, 3), 1, 1), ((1, 0), 1, 3), ((1, 2), 0, 0), ((1, 4), 2, 2),
      ((2, 0), 0, 1), ((2, 1), 2, 4), ((3, 1), 1, 0), ((4, 2), 2, 1)] :: edgeMap"
  show "sorted_wrt (<) [0 :: nat]" by simp
  show "list_all2 (\<lambda>k. mergeOf ?em (?em ! k)) [0] [(0, 1, [2, 0, 3, 1])]"
    by (simp add: mergeOf_def)
  show "\<forall>k \<in> set [0]. k < length ?em" by simp
  fix n :: nat
  assume "n < length ?em"
  then have "n \<in> {0, 1, 2, 3, 4, 5, 6, 7, 8}"
    by (simp del: One_nat_def) arith
  then show "n \<in> set [0] \<longleftrightarrow>
      greedyAt (\<lambda>v. v) [0, 1, 2, 3, 4 :: nat] {(0, 1), (1, 2)} ?em
        (mergedBefore [0] [(0, 1, [2, 0, 3, 1])] n) n"
    by (elim insertE emptyE) (simp_all add: greedyAt_def qualifies_def mergedBefore_def mergeFaces_def)
qed

lemma fan_pinned:
  assumes "greedyWalk (\<lambda>v. v) [0, 1, 2, 3, 4 :: nat] {(0, 1), (1, 2)}
     (buildTriangleEdgeMap [[0, 1, 2], [1, 0, 3], [2, 1, 4]]) ks ms"
  shows "ks = [0] \<and> ms = [(0, 1, [2, 0, 3, 1])]"
  using greedyWalk_unique [OF assms fan_walk] .

theorem recoverQuads_greedy_witness:
  "trianglesInRange [0, 1, 2, 3, 4 :: nat] [[0, 1, 2], [1, 0, 3], [2, 1, 4]] \<and>
   recoverQuads (\<lambda>v. v) [0, 1, 2, 3, 4 :: nat] [[0, 1, 2], [1, 0, 3], [2, 1, 4]] {(0, 1), (1, 2)} [] =
     Some [[2, 0, 3, 1], [2, 1, 4]] \<and>
   length [2, 0, 3, 1 :: nat] = 4 \<and> length [2, 1, 4 :: nat] = 3"
proof -
  have r: "trianglesInRange [0, 1, 2, 3, 4 :: nat] [[0, 1, 2], [1, 0, 3], [2, 1, 4]]"
    by (simp add: trianglesInRange_def)
  have three: "\<forall>f \<in> set [[0, 1, 2], [1, 0, 3], [2, 1, 4 :: nat]]. length f = 3"
    by simp
  note t = recoverQuads_greedy [of "[0, 1, 2, 3, 4 :: nat]" "[[0, 1, 2], [1, 0, 3], [2, 1, 4]]"
      "\<lambda>v. v" "{(0, 1), (1, 2)}" "[]"]
  from t r have "recoverQuads (\<lambda>v. v) [0, 1, 2, 3, 4 :: nat] [[0, 1, 2], [1, 0, 3], [2, 1, 4]]
      {(0, 1), (1, 2)} [] \<noteq> None"
    by blast
  moreover from t [THEN conjunct2, THEN conjunct2, rule_format, OF fan_recoverQuads] three
  have "\<forall>f \<in> set (drop (length ([] :: face list)) [[2, 0, 3, 1], [2, 1, 4 :: nat]]).
      length f = 3 \<or> length f = 4"
    by blast
  ultimately show ?thesis
    using r fan_recoverQuads by simp
qed

text \<open>
  A fan of three triangles whose two inner edges are both shared quad edges: the middle
  triangle is merged with the first, so the qualifying pair of the middle and the last
  triangle yields no quad.
\<close>

theorem recoverQuads_fan_counterexample:
  "recoverQuads (\<lambda>v. v) [0, 1, 2, 3, 4 :: nat] [[0, 1, 2], [1, 0, 3], [2, 1, 4]] {(0, 1), (1, 2)} [] =
     Some [[2, 0, 3, 1], [2, 1, 4]] \<and>
   hasEdge ([[0, 1, 2], [1, 0, 3], [2, 1, 4]] ! 0) 1 2 0 \<and>
   hasEdge ([[0, 1, 2], [1, 0, 3], [2, 1, 4]] ! 2) 2 1 4 \<and>
   ((\<lambda>v. v) ([0, 1, 2, 3, 4 :: nat] ! 1), (\<lambda>v. v) ([0, 1, 2, 3, 4 :: nat] ! 2)) \<in> {(0, 1), (1, 2)} \<and>
   [0, 1, 4, 2] \<notin> set [[2, 0, 3, 1], [2, 1, 4 :: nat]]"
  using fan_recoverQuads by (simp add: hasEdge_def)

subsection \<open>Chamfering a cut polygon\<close>











subsection \<open>Evicting cached combinations of dirty components\<close>

text \<open>
  \<open>std::string::find\<close>: the position of the first occurrence of the needle in the
  haystack, \<open>None\<close> for \<open>npos\<close>.
\<close>

fun stringFind :: "string \<Rightarrow> string \<Rightarrow> nat option" where
  "stringFind [] needle = (if needle = [] then Some 0 else None)"
| "stringFind (c # cs) needle =
     (if prefix needle (c # cs) then Some 0 else map_option Suc (stringFind cs needle))"

text \<open>
  The combination cache is a \<open>std::map\<close> from combination strings to mesh pointers; it is
  an association list here, in iteration order. The inner loop erases every entry whose
  key contains the dirty component id; the outer loop runs over the dirty component ids.
\<close>

fun eraseCombinations :: "(string \<times> 'm) list \<Rightarrow> string \<Rightarrow> (string \<times> 'm) list" where
  "eraseCombinations [] dirtyComponentId = []"
| "eraseCombinations (combination # rest) dirtyComponentId =
     (if stringFind (fst combination) dirtyComponentId \<noteq> None
      then eraseCombinations rest dirtyComponentId
      else combination # eraseCombinations rest dirtyComponentId)"

fun evictDirtyCombinations :: "(string \<times> 'm) list \<Rightarrow> string list \<Rightarrow> (string \<times> 'm) list" where
  "evictDirtyCombinations cachedCombination [] = cachedCombination"
| "evictDirtyCombinations cachedCombination (dirtyComponentId # rest) =
     evictDirtyCombinations (eraseCombinations cachedCombination dirtyComponentId) rest"

lemma stringFind_sublist: "stringFind haystack needle \<noteq> None \<longleftrightarrow> sublist needle haystack"
  by (induction haystack) (auto simp: sublist_Cons_right)

lemma eraseCombinations_filter:
  "eraseCombinations cache d = filter (\<lambda>e. \<not> sublist d (fst e)) cache"
  by (induction cache) (simp_all add: stringFind_sublist del: not_None_eq)

lemma evictDirtyCombinations_filter:
  "evictDirtyCombinations cache ds = filter (\<lambda>e. \<forall>d \<in> set ds. \<not> sublist d (fst e)) cache"
proof (induction ds arbitrary: cache)
  case Nil
  show ?case by simp
next
  case (Cons d ds)
  have "evictDirtyCombinations cache (d # ds) =
      filter (\<lambda>e. \<forall>d' \<in> set ds. \<not> sublist d' (fst e)) (filter (\<lambda>e. \<not> sublist d (fst e)) cache)"
    by (simp add: Cons.IH eraseCombinations_filter)
  also have "\<dots> = filter (\<lambda>e. \<forall>d' \<in> set (d # ds). \<not> sublist d' (fst e)) cache"
    by (simp add: conj_commute)
  finally show ?case .
qed

text \<open>
  C6. For every dirty component id \<open>d\<close> the eviction loop runs over: no key that remains in
  the combination cache contains \<open>d\<close> as a substring, every entry whose key contained \<open>d\<close>
  is gone, and the entries whose key contains no dirty id are all kept.
\<close>

theorem evictDirtyCombinations_no_dirty_key:
  assumes "d \<in> set dirtyComponentIds"
  shows "(\<forall>e \<in> set (evictDirtyCombinations cachedCombination dirtyComponentIds).
            \<not> sublist d (fst e)) \<and>
         (\<forall>e \<in> set cachedCombination.
            sublist d (fst e) \<longrightarrow>
              e \<notin> set (evictDirtyCombinations cachedCombination dirtyComponentIds)) \<and>
         (\<forall>e \<in> set cachedCombination.
            (\<forall>d' \<in> set dirtyComponentIds. \<not> sublist d' (fst e)) \<longrightarrow>
              e \<in> set (evictDirtyCombinations cachedCombination dirtyComponentIds))"
  using assms unfolding evictDirtyCombinations_filter by auto

theorem evictDirtyCombinations_no_dirty_key_witness:
  "''{b}'' \<in> set [''{x}'', ''{b}''] \<and>
   evictDirtyCombinations [(''{a}+{b}!'', 1 :: nat), (''{c}-{d}!'', 2), (''{b}'', 3)]
     [''{x}'', ''{b}''] = [(''{c}-{d}!'', 2)] \<and>
   \<not> sublist ''{b}'' ''{c}-{d}!''"
proof -
  have m: "''{b}'' \<in> set [''{x}'', ''{b}'']" by simp
  have r: "evictDirtyCombinations [(''{a}+{b}!'', 1 :: nat), (''{c}-{d}!'', 2), (''{b}'', 3)]
     [''{x}'', ''{b}''] = [(''{c}-{d}!'', 2)]"
    by simp
  from evictDirtyCombinations_no_dirty_key [OF m,
      of "[(''{a}+{b}!'', 1 :: nat), (''{c}-{d}!'', 2), (''{b}'', 3)]"]
  show ?thesis unfolding r using m by simp
qed

subsection \<open>The snapshot and its string-typed attributes\<close>

text \<open>
  A snapshot holds attribute maps (\<open>std::map<std::string, std::string>\<close>) keyed by id
  strings. The nodes, which \<open>collectParts\<close> iterates, are the association list of the
  entries of their map; parts and components are only looked up. The enumerators of
  \<open>CombineMode\<close> are those the sources name; \<open>Count\<close> is the sentinel the grouping loop
  starts from. The string helpers, the \<open>Uuid\<close> class and the \<open>CombineMode\<close> conversions are
  declared outside the embedded sources; they are the fields of \<open>Externals\<close>, and every
  function that calls one takes the record as its first argument.
\<close>

type_synonym attributes = "string \<Rightarrow> string option"

record Snapshot =
  parts :: "string \<Rightarrow> attributes option"
  nodes :: "(string \<times> attributes) list"
  components :: "string \<Rightarrow> attributes option"
  rootComponent :: attributes

datatype CombineMode = Normal | Inversion | Uncombined | Count

record Externals =
  isTrue :: "string \<Rightarrow> bool"
  split :: "string \<Rightarrow> char \<Rightarrow> string list"
  uuidIsNull :: "string \<Rightarrow> bool"
  uuidToString :: "string \<Rightarrow> string"
  CombineModeFromString :: "string \<Rightarrow> CombineMode"

text \<open>
  Modelled from the spec: \<open>String::valueOrEmpty\<close> is not among the embedded sources; it
  reads an attribute and yields the empty string when the attribute is absent.
\<close>

definition valueOrEmpty :: "attributes \<Rightarrow> string \<Rightarrow> string" where
  "valueOrEmpty attrs key = (case attrs key of None \<Rightarrow> [] | Some v \<Rightarrow> v)"

text \<open>
  Modelled from the spec: \<open>to_string(Uuid())\<close>, the nil UUID that is the id of the virtual
  root component, in the braced form that \<open>reverseUuid\<close> takes apart.
\<close>

definition nullUuidString :: string where
  "nullUuidString = ''{00000000-0000-0000-0000-000000000000}''"

definition findComponent :: "Snapshot \<Rightarrow> string \<Rightarrow> attributes option" where
  "findComponent snapshot componentIdString =
     (if componentIdString \<noteq> nullUuidString then components snapshot componentIdString
      else Some (rootComponent snapshot))"

definition componentCombineMode :: "'x Externals_scheme \<Rightarrow> attributes option \<Rightarrow> CombineMode" where
  "componentCombineMode ext component =
     (case component of
        None \<Rightarrow> Normal
      | Some c \<Rightarrow>
          (let combineMode = CombineModeFromString ext (valueOrEmpty c ''combineMode'') in
           if combineMode = Normal \<and> isTrue ext (valueOrEmpty c ''inverse'')
           then Inversion else combineMode))"

definition componentColorName :: "Snapshot \<Rightarrow> attributes option \<Rightarrow> string" where
  "componentColorName snapshot component =
     (case component of
        None \<Rightarrow> []
      | Some c \<Rightarrow>
          if valueOrEmpty c ''linkDataType'' = ''partId'' then
            (case parts snapshot (valueOrEmpty c ''linkData'') of
               None \<Rightarrow> []
             | Some part \<Rightarrow>
                 if valueOrEmpty part ''colorSolubility'' \<noteq> [] then ''+''
                 else if valueOrEmpty part ''color'' = [] then ''-''
                 else valueOrEmpty part ''color'')
          else [])"

subsection \<open>Grouping the children of a component by combine mode\<close>

text \<open>
  The first loop of the non-leaf branch of \<open>combineComponentMesh\<close>. Its local variables
  are the fields of \<open>GroupState\<close>; a group is a combine mode with the list of
  \<open>(childIdString, colorName)\<close> entries pushed to it. \<open>groupChild\<close> is one pass of the loop
  body, \<open>groupChildren\<close> the whole loop over the result of splitting the \<open>children\<close>
  attribute.
\<close>

record GroupState =
  combineGroups :: "(CombineMode \<times> (string \<times> string) list) list"
  currentGroupIndex :: int
  lastCombineMode :: CombineMode
  foundColorSolubilitySetting :: bool

definition initialGroupState :: GroupState where
  "initialGroupState =
     \<lparr>combineGroups = [], currentGroupIndex = - 1, lastCombineMode = Count,
      foundColorSolubilitySetting = False\<rparr>"

definition pushToGroup ::
  "(CombineMode \<times> (string \<times> string) list) list \<Rightarrow> nat \<Rightarrow> string \<times> string \<Rightarrow>
   (CombineMode \<times> (string \<times> string) list) list" where
  "pushToGroup groups i entry = groups[i := (fst (groups ! i), snd (groups ! i) @ [entry])]"

definition groupChild :: "'x Externals_scheme \<Rightarrow> Snapshot \<Rightarrow> GroupState \<Rightarrow> string \<Rightarrow> GroupState" where
  "groupChild ext snapshot st childIdString =
     (if childIdString = [] then st
      else
        let child = findComponent snapshot childIdString;
            colorName = componentColorName snapshot child;
            st1 = (if colorName = ''+'' then st\<lparr>foundColorSolubilitySetting := True\<rparr> else st);
            combineMode = componentCombineMode ext child;
            st2 = (if lastCombineMode st1 \<noteq> combineMode \<or> lastCombineMode st1 = Inversion
                   then st1\<lparr>combineGroups := combineGroups st1 @ [(combineMode, [])],
                            currentGroupIndex := currentGroupIndex st1 + 1,
                            lastCombineMode := combineMode\<rparr>
                   else st1)
        in if currentGroupIndex st2 = - 1 then st2
           else st2\<lparr>combineGroups :=
                  pushToGroup (combineGroups st2) (nat (currentGroupIndex st2))
                    (childIdString, colorName)\<rparr>)"

definition groupChildren :: "'x Externals_scheme \<Rightarrow> Snapshot \<Rightarrow> string list \<Rightarrow> GroupState" where
  "groupChildren ext snapshot children = foldl (groupChild ext snapshot) initialGroupState children"

definition componentChildren :: "'x Externals_scheme \<Rightarrow> attributes \<Rightarrow> string list" where
  "componentChildren ext component = split ext (valueOrEmpty component ''children'') (CHR '','')"

text \<open>The entry the loop pushes for a child, and the combine mode it reads for it.\<close>

definition childEntry :: "Snapshot \<Rightarrow> string \<Rightarrow> string \<times> string" where
  "childEntry snapshot childIdString =
     (childIdString, componentColorName snapshot (findComponent snapshot childIdString))"

definition combineModeOfChild :: "'x Externals_scheme \<Rightarrow> Snapshot \<Rightarrow> string \<Rightarrow> CombineMode" where
  "combineModeOfChild ext snapshot childIdString =
     componentCombineMode ext (findComponent snapshot childIdString)"

text \<open>
  The grouping in the words of the specification: walking the children in declared order,
  a child starts a new group when there is no previous child, when its combine mode
  differs from the previous child's (the mode of the last group), or when its own mode is
  \<open>Inversion\<close>; otherwise it joins the last group.
\<close>

definition specGroupStep ::
  "(CombineMode \<times> (string \<times> string) list) list \<Rightarrow> (string \<times> string) \<times> CombineMode \<Rightarrow>
   (CombineMode \<times> (string \<times> string) list) list" where
  "specGroupStep groups child =
     (if groups = [] \<or> fst (last groups) \<noteq> snd child \<or> snd child = Inversion
      then groups @ [(snd child, [fst child])]
      else butlast groups @ [(fst (last groups), snd (last groups) @ [fst child])])"

definition specGroups ::
  "'x Externals_scheme \<Rightarrow> Snapshot \<Rightarrow> string list \<Rightarrow> (CombineMode \<times> (string \<times> string) list) list" where
  "specGroups ext snapshot children =
     foldl specGroupStep []
       (map (\<lambda>c. (childEntry snapshot c, combineModeOfChild ext snapshot c))
          (filter (\<lambda>c. c \<noteq> []) children))"

text \<open>
  Modelled from the spec: the helpers behind \<open>Externals\<close> are not among the embedded sources.
  \<open>specExternals\<close> is one implementation that follows the specification: booleans are
  \<open>"true"\<close> and \<open>"false"\<close>, \<open>children\<close> is a comma separated list, identifiers are UUID strings
  in the braced form \<open>{8-4-4-4-12}\<close> that \<open>reverseUuid\<close> takes apart, a string that is not
  one parses to the nil UUID, and a combine mode is \<open>Normal\<close>, \<open>Inversion\<close> or \<open>Uncombined\<close>.
\<close>

fun splitString :: "string \<Rightarrow> char \<Rightarrow> string list" where
  "splitString [] separator = []"
| "splitString (c # cs) separator =
     (if c = separator then [] # splitString cs separator
      else (case splitString cs separator of
              [] \<Rightarrow> [[c]]
            | token # tokens \<Rightarrow> (c # token) # tokens))"

definition isHexDigit :: "char \<Rightarrow> bool" where
  "isHexDigit c \<longleftrightarrow> c \<in> set ''0123456789abcdef''"

definition wellFormedUuid :: "string \<Rightarrow> bool" where
  "wellFormedUuid s \<longleftrightarrow>
     length s = 38 \<and> s ! 0 = CHR ''{'' \<and> s ! 37 = CHR ''}'' \<and>
     s ! 9 = CHR ''-'' \<and> s ! 14 = CHR ''-'' \<and> s ! 19 = CHR ''-'' \<and> s ! 24 = CHR ''-'' \<and>
     list_all isHexDigit (take 8 (drop 1 s)) \<and> list_all isHexDigit (take 4 (drop 10 s)) \<and>
     list_all isHexDigit (take 4 (drop 15 s)) \<and> list_all isHexDigit (take 4 (drop 20 s)) \<and>
     list_all isHexDigit (take 12 (drop 25 s))"

definition specExternals :: Externals where
  "specExternals =
     \<lparr>isTrue = (\<lambda>s. s = ''true''),
      split = splitString,
      uuidIsNull = (\<lambda>s. \<not> wellFormedUuid s \<or> s = nullUuidString),
      uuidToString = (\<lambda>s. if wellFormedUuid s then s else nullUuidString),
      CombineModeFromString =
        (\<lambda>s. if s = ''Inversion'' then Inversion
             else if s = ''Uncombined'' then Uncombined else Normal)\<rparr>"

text \<open>A small component tree: five children under the root, two of them inverted.\<close>

definition demoSnapshot :: Snapshot where
  "demoSnapshot =
     \<lparr>parts = Map.empty, nodes = [],
      components = [''a'' \<mapsto> Map.empty, ''b'' \<mapsto> [''combineMode'' \<mapsto> ''Normal''],
                    ''c'' \<mapsto> [''inverse'' \<mapsto> ''true''],
                    ''d'' \<mapsto> [''combineMode'' \<mapsto> ''Inversion''],
                    ''e'' \<mapsto> Map.empty],
      rootComponent = [''children'' \<mapsto> ''a,b,,c,d,e'']\<rparr>"

text \<open>Invariants of the loop: the shape of the groups, and the two cursors.\<close>

definition groupsOk ::
  "(string \<Rightarrow> CombineMode) \<Rightarrow> (CombineMode \<times> (string \<times> string) list) list \<Rightarrow> bool" where
  "groupsOk modeOf groups \<longleftrightarrow>
     (\<forall>g \<in> set groups. snd g \<noteq> [] \<and> (\<forall>e \<in> set (snd g). modeOf (fst e) = fst g)) \<and>
     (\<forall>g \<in> set groups. fst g = Inversion \<longrightarrow> length (snd g) = 1) \<and>
     successively (\<lambda>g h. fst g \<noteq> fst h \<or> fst h = Inversion) groups"

definition groupStateOk :: "GroupState \<Rightarrow> bool" where
  "groupStateOk st \<longleftrightarrow>
     currentGroupIndex st = int (length (combineGroups st)) - 1 \<and>
     lastCombineMode st = (if combineGroups st = [] then Count else fst (last (combineGroups st)))"

lemma componentCombineMode_not_Count:
  "\<forall>s. CombineModeFromString ext s \<noteq> Count \<Longrightarrow> componentCombineMode ext component \<noteq> Count"
  by (simp add: componentCombineMode_def Let_def split: option.splits)

lemma pushToGroup_last:
  "groups \<noteq> [] \<Longrightarrow>
   pushToGroup groups (length groups - 1) entry =
     butlast groups @ [(fst (last groups), snd (last groups) @ [entry])]"
proof (induction groups rule: rev_induct)
  case Nil
  then show ?case by simp
next
  case (snoc g gs)
  show ?case by (simp add: pushToGroup_def nth_append)
qed

lemma pushToGroup_fresh:
  "pushToGroup (groups @ [(m, [])]) (length groups) entry = groups @ [(m, [entry])]"
  by (simp add: pushToGroup_def)

lemma groupChild_fields:
  fixes ext snapshot st c
  defines "m \<equiv> combineModeOfChild ext snapshot c"
  defines "fresh \<equiv> lastCombineMode st \<noteq> m \<or> lastCombineMode st = Inversion"
  defines "G \<equiv> (if fresh then combineGroups st @ [(m, [])] else combineGroups st)"
  defines "i \<equiv> (if fresh then currentGroupIndex st + 1 else currentGroupIndex st)"
  assumes "c \<noteq> []"
  shows "combineGroups (groupChild ext snapshot st c) =
           (if i = - 1 then G else pushToGroup G (nat i) (childEntry snapshot c))"
    and "currentGroupIndex (groupChild ext snapshot st c) = i"
    and "lastCombineMode (groupChild ext snapshot st c) = (if fresh then m else lastCombineMode st)"
  using assms(5) unfolding m_def fresh_def G_def i_def
  by (simp_all add: groupChild_def Let_def childEntry_def combineModeOfChild_def)

lemma groupChild_new:
  assumes ok: "groupStateOk st" and c: "c \<noteq> []"
    and new: "combineGroups st = [] \<or> fst (last (combineGroups st)) \<noteq> combineModeOfChild ext snapshot c
         \<or> fst (last (combineGroups st)) = Inversion"
    and nc: "combineModeOfChild ext snapshot c \<noteq> Count"
  shows "combineGroups (groupChild ext snapshot st c) =
           combineGroups st @ [(combineModeOfChild ext snapshot c, [childEntry snapshot c])] \<and>
         groupStateOk (groupChild ext snapshot st c)"
proof -
  let ?m = "combineModeOfChild ext snapshot c"
  from ok new nc have cond: "(lastCombineMode st \<noteq> ?m \<or> lastCombineMode st = Inversion) = True"
    by (auto simp: groupStateOk_def)
  from ok have idx: "currentGroupIndex st = int (length (combineGroups st)) - 1"
    by (simp add: groupStateOk_def)
  have g: "combineGroups (groupChild ext snapshot st c) =
      combineGroups st @ [(?m, [childEntry snapshot c])]"
    unfolding groupChild_fields(1) [OF c] cond idx by (simp add: pushToGroup_fresh)
  have i: "currentGroupIndex (groupChild ext snapshot st c) = int (length (combineGroups st))"
    unfolding groupChild_fields(2) [OF c] cond idx by simp
  have l: "lastCombineMode (groupChild ext snapshot st c) = ?m"
    unfolding groupChild_fields(3) [OF c] cond by simp
  show ?thesis
    by (simp add: g groupStateOk_def i l)
qed

lemma groupChild_same:
  assumes ok: "groupStateOk st" and c: "c \<noteq> []"
    and ne: "combineGroups st \<noteq> []"
    and same: "fst (last (combineGroups st)) = combineModeOfChild ext snapshot c"
    and ni: "fst (last (combineGroups st)) \<noteq> Inversion"
  shows "combineGroups (groupChild ext snapshot st c) =
           butlast (combineGroups st) @
             [(fst (last (combineGroups st)), snd (last (combineGroups st)) @ [childEntry snapshot c])] \<and>
         groupStateOk (groupChild ext snapshot st c)"
proof -
  let ?m = "combineModeOfChild ext snapshot c"
  from ok ne same ni have cond: "(lastCombineMode st \<noteq> ?m \<or> lastCombineMode st = Inversion) = False"
    by (auto simp: groupStateOk_def)
  from ok have idx: "currentGroupIndex st = int (length (combineGroups st)) - 1"
    by (simp add: groupStateOk_def)
  from ne have n: "nat (int (length (combineGroups st)) - 1) = length (combineGroups st) - 1"
    by simp
  from ne have z: "(int (length (combineGroups st)) - 1 = - 1) = False"
    by simp
  from ok ne have last: "lastCombineMode st = fst (last (combineGroups st))"
    by (simp add: groupStateOk_def)
  have g: "combineGroups (groupChild ext snapshot st c) =
      butlast (combineGroups st) @
        [(fst (last (combineGroups st)), snd (last (combineGroups st)) @ [childEntry snapshot c])]"
    unfolding groupChild_fields(1) [OF c] cond idx if_False z n
    by (rule pushToGroup_last [OF ne])
  have i: "currentGroupIndex (groupChild ext snapshot st c) = int (length (combineGroups st)) - 1"
    unfolding groupChild_fields(2) [OF c] cond idx by simp
  have l: "lastCombineMode (groupChild ext snapshot st c) = fst (last (combineGroups st))"
    unfolding groupChild_fields(3) [OF c] cond by (simp add: last)
  show ?thesis
    using ne by (simp add: g groupStateOk_def i l)
qed


lemma groupsOk_new:
  assumes ok: "groupsOk modeOf G" and m: "modeOf (fst e) = m"
    and new: "G = [] \<or> fst (last G) \<noteq> m \<or> fst (last G) = Inversion"
  shows "groupsOk modeOf (G @ [(m, [e])])"
proof -
  have "G \<noteq> [] \<Longrightarrow> fst (last G) \<noteq> m \<or> m = Inversion"
    using new by auto
  then show ?thesis
    using ok m by (auto simp: groupsOk_def successively_append_iff)
qed

lemma groupsOk_same:
  assumes ok: "groupsOk modeOf G" and m: "modeOf (fst e) = fst (last G)"
    and ne: "G \<noteq> []" and ni: "fst (last G) \<noteq> Inversion"
  shows "groupsOk modeOf (butlast G @ [(fst (last G), snd (last G) @ [e])])"
proof -
  from ne obtain H g where G: "G = H @ [g]"
    by (metis append_butlast_last_id)
  show ?thesis
    using ok m ni unfolding G
    by (auto simp: groupsOk_def successively_append_iff)
qed

lemma concat_groups_same:
  "G \<noteq> [] \<Longrightarrow>
   concat (map snd (butlast G @ [(fst (last G), snd (last G) @ [e])])) = concat (map snd G) @ [e]"
proof -
  assume "G \<noteq> []"
  then obtain H g where G: "G = H @ [g]"
    by (metis append_butlast_last_id)
  show ?thesis unfolding G by simp
qed

lemma groupChild_step:
  assumes nc: "\<forall>s. CombineModeFromString ext s \<noteq> Count"
    and ok: "groupStateOk st" and gs: "groupsOk (combineModeOfChild ext snapshot) (combineGroups st)"
  shows "groupStateOk (groupChild ext snapshot st c) \<and>
         groupsOk (combineModeOfChild ext snapshot) (combineGroups (groupChild ext snapshot st c)) \<and>
         concat (map snd (combineGroups (groupChild ext snapshot st c))) =
           concat (map snd (combineGroups st)) @ map (childEntry snapshot) (filter (\<lambda>c. c \<noteq> []) [c])"
proof (cases "c = []")
  case True
  then show ?thesis using ok gs by (simp add: groupChild_def)
next
  case c: False
  let ?G = "combineGroups st"
  let ?m = "combineModeOfChild ext snapshot c"
  have m: "combineModeOfChild ext snapshot (fst (childEntry snapshot c)) = ?m"
    by (simp add: childEntry_def)
  from nc have notCount: "?m \<noteq> Count"
    by (simp add: combineModeOfChild_def componentCombineMode_not_Count)
  show ?thesis
  proof (cases "?G = [] \<or> fst (last ?G) \<noteq> ?m \<or> fst (last ?G) = Inversion")
    case True
    from groupChild_new [OF ok c True notCount] groupsOk_new [OF gs m True]
    show ?thesis using c by simp
  next
    case False
    then have ne: "?G \<noteq> []" and same: "fst (last ?G) = ?m" and ni: "fst (last ?G) \<noteq> Inversion"
      by auto
    from m same have m': "combineModeOfChild ext snapshot (fst (childEntry snapshot c)) = fst (last ?G)"
      by simp
    from groupChild_same [OF ok c ne same ni] groupsOk_same [OF gs m' ne ni]
      concat_groups_same [OF ne, of "childEntry snapshot c"]
    show ?thesis using c by simp
  qed
qed

lemma groupChildren_foldl:
  assumes nc: "\<forall>s. CombineModeFromString ext s \<noteq> Count"
    and ok: "groupStateOk st" and gs: "groupsOk (combineModeOfChild ext snapshot) (combineGroups st)"
  shows "groupsOk (combineModeOfChild ext snapshot)
           (combineGroups (foldl (groupChild ext snapshot) st children)) \<and>
         concat (map snd (combineGroups (foldl (groupChild ext snapshot) st children))) =
           concat (map snd (combineGroups st)) @
             map (childEntry snapshot) (filter (\<lambda>c. c \<noteq> []) children)"
  using ok gs
proof (induction children arbitrary: st)
  case Nil
  then show ?case by simp
next
  case (Cons c children)
  from groupChild_step [OF nc Cons.prems, of c]
  have ok': "groupStateOk (groupChild ext snapshot st c)"
    and gs': "groupsOk (combineModeOfChild ext snapshot) (combineGroups (groupChild ext snapshot st c))"
    and cc: "concat (map snd (combineGroups (groupChild ext snapshot st c))) =
           concat (map snd (combineGroups st)) @ map (childEntry snapshot) (filter (\<lambda>c. c \<noteq> []) [c])"
    by blast+
  from Cons.IH [OF ok' gs'] show ?case
    unfolding foldl_Cons cc by simp
qed

lemma specGroupStep_new:
  "G = [] \<or> fst (last G) \<noteq> m \<or> fst (last G) = Inversion \<Longrightarrow>
   specGroupStep G (e, m) = G @ [(m, [e])]"
  by (auto simp: specGroupStep_def)

lemma specGroupStep_same:
  "G \<noteq> [] \<Longrightarrow> fst (last G) = m \<Longrightarrow> fst (last G) \<noteq> Inversion \<Longrightarrow>
   specGroupStep G (e, m) = butlast G @ [(fst (last G), snd (last G) @ [e])]"
  by (auto simp: specGroupStep_def)

lemma groupChild_spec:
  assumes nc: "\<forall>s. CombineModeFromString ext s \<noteq> Count"
    and ok: "groupStateOk st"
  shows "combineGroups (groupChild ext snapshot st c) =
           foldl specGroupStep (combineGroups st)
             (map (\<lambda>c. (childEntry snapshot c, combineModeOfChild ext snapshot c))
                (filter (\<lambda>c. c \<noteq> []) [c]))"
proof (cases "c = []")
  case True
  then show ?thesis by (simp add: groupChild_def)
next
  case c: False
  let ?G = "combineGroups st"
  let ?m = "combineModeOfChild ext snapshot c"
  from nc have notCount: "?m \<noteq> Count"
    by (simp add: combineModeOfChild_def componentCombineMode_not_Count)
  show ?thesis
  proof (cases "?G = [] \<or> fst (last ?G) \<noteq> ?m \<or> fst (last ?G) = Inversion")
    case True
    from groupChild_new [OF ok c True notCount] specGroupStep_new [OF True]
    show ?thesis using c by simp
  next
    case False
    then have ne: "?G \<noteq> []" and same: "fst (last ?G) = ?m" and ni: "fst (last ?G) \<noteq> Inversion"
      by auto
    from groupChild_same [OF ok c ne same ni] specGroupStep_same [OF ne same ni]
    show ?thesis using c by simp
  qed
qed

lemma groupChildren_spec:
  assumes nc: "\<forall>s. CombineModeFromString ext s \<noteq> Count"
    and ok: "groupStateOk st" and gs: "groupsOk (combineModeOfChild ext snapshot) (combineGroups st)"
  shows "combineGroups (foldl (groupChild ext snapshot) st children) =
           foldl specGroupStep (combineGroups st)
             (map (\<lambda>c. (childEntry snapshot c, combineModeOfChild ext snapshot c))
                (filter (\<lambda>c. c \<noteq> []) children))"
  using ok gs
proof (induction children arbitrary: st)
  case Nil
  then show ?case by simp
next
  case (Cons c children)
  from groupChild_step [OF nc Cons.prems, of c]
  have ok': "groupStateOk (groupChild ext snapshot st c)"
    and gs': "groupsOk (combineModeOfChild ext snapshot) (combineGroups (groupChild ext snapshot st c))"
    by blast+
  show ?case
    unfolding foldl_Cons Cons.IH [OF ok' gs'] groupChild_spec [OF nc Cons.prems(1), of snapshot c]
    by simp
qed

text \<open>
  C3. Provided no combine mode string converts to the sentinel \<open>Count\<close>, the grouping loop of
  \<open>combineComponentMesh\<close> computes the grouping the specification describes (a new group
  exactly when there is no previous child, the mode differs from the previous child's, or
  the current mode is \<open>Inversion\<close>). The groups, concatenated, are the non-empty children
  in declared order; no group is empty and every member has the mode of its group; an
  \<open>Inversion\<close> group has exactly one member; and consecutive groups differ in mode unless
  the second is an \<open>Inversion\<close> group.
\<close>

theorem combineGroups_partition:
  assumes "\<forall>s. CombineModeFromString ext s \<noteq> Count"
  shows "combineGroups (groupChildren ext snapshot children) = specGroups ext snapshot children \<and>
         concat (map snd (combineGroups (groupChildren ext snapshot children))) =
           map (childEntry snapshot) (filter (\<lambda>c. c \<noteq> []) children) \<and>
         (\<forall>g \<in> set (combineGroups (groupChildren ext snapshot children)).
            snd g \<noteq> [] \<and>
            (\<forall>e \<in> set (snd g). combineModeOfChild ext snapshot (fst e) = fst g)) \<and>
         (\<forall>g \<in> set (combineGroups (groupChildren ext snapshot children)).
            fst g = Inversion \<longrightarrow> length (snd g) = 1) \<and>
         successively (\<lambda>g h. fst g \<noteq> fst h \<or> fst h = Inversion)
           (combineGroups (groupChildren ext snapshot children))"
proof -
  have ok: "groupStateOk initialGroupState"
    by (simp add: groupStateOk_def initialGroupState_def)
  have gs: "groupsOk (combineModeOfChild ext snapshot) (combineGroups initialGroupState)"
    by (simp add: groupsOk_def initialGroupState_def)
  have e: "combineGroups initialGroupState = []"
    by (simp add: initialGroupState_def)
  from groupChildren_foldl [OF assms ok gs, of children]
    groupChildren_spec [OF assms ok gs, of children]
  show ?thesis
    unfolding groupChildren_def specGroups_def e groupsOk_def by simp
qed

lemma specExternals_not_Count: "\<forall>s. CombineModeFromString specExternals s \<noteq> Count"
  by (simp add: specExternals_def)

theorem combineGroups_partition_witness:
  "combineGroups (groupChildren specExternals demoSnapshot [''a'', ''b'', [], ''c'', ''d'', ''e'']) =
     [(Normal, [(''a'', []), (''b'', [])]), (Inversion, [(''c'', [])]),
      (Inversion, [(''d'', [])]), (Normal, [(''e'', [])])]"
proof -
  have m: "combineModeOfChild specExternals demoSnapshot ''a'' = Normal"
    "combineModeOfChild specExternals demoSnapshot ''b'' = Normal"
    "combineModeOfChild specExternals demoSnapshot ''c'' = Inversion"
    "combineModeOfChild specExternals demoSnapshot ''d'' = Inversion"
    "combineModeOfChild specExternals demoSnapshot ''e'' = Normal"
    by (simp_all add: combineModeOfChild_def componentCombineMode_def findComponent_def
        demoSnapshot_def specExternals_def valueOrEmpty_def nullUuidString_def)
  have e: "childEntry demoSnapshot ''a'' = (''a'', [])"
    "childEntry demoSnapshot ''b'' = (''b'', [])"
    "childEntry demoSnapshot ''c'' = (''c'', [])"
    "childEntry demoSnapshot ''d'' = (''d'', [])"
    "childEntry demoSnapshot ''e'' = (''e'', [])"
    by (simp_all add: childEntry_def componentColorName_def findComponent_def
        demoSnapshot_def valueOrEmpty_def nullUuidString_def)
  have s: "specGroups specExternals demoSnapshot [''a'', ''b'', [], ''c'', ''d'', ''e''] =
     [(Normal, [(''a'', []), (''b'', [])]), (Inversion, [(''c'', [])]),
      (Inversion, [(''d'', [])]), (Normal, [(''e'', [])])]"
    by (simp add: specGroups_def m e specGroupStep_def)
  from combineGroups_partition [OF specExternals_not_Count, of demoSnapshot "[''a'', ''b'', [], ''c'', ''d'', ''e'']"]
  show ?thesis unfolding s by (rule conjunct1)
qed

subsection \<open>Deriving the id of a mirrored twin\<close>

text \<open>
  \<open>std::string::substr(pos, len)\<close> throws \<open>std::out_of_range\<close> when \<open>pos\<close> exceeds the size
  of the string: \<open>None\<close> here. \<open>reverseUuid\<close> normalises its argument through \<open>Uuid\<close> and
  \<open>to_string\<close> (the field \<open>uuidToString\<close> of \<open>Externals\<close>), strips braces and hyphens, reverses
  the 32 digits and formats them again.
\<close>

definition substr :: "string \<Rightarrow> nat \<Rightarrow> nat \<Rightarrow> string option" where
  "substr s pos len = (if pos \<le> length s then Some (take len (drop pos s)) else None)"

definition reverseUuid :: "'x Externals_scheme \<Rightarrow> string \<Rightarrow> string option" where
  "reverseUuid ext uuidString =
     (let newIdString = uuidToString ext uuidString in
      (case substr newIdString 1 8 of None \<Rightarrow> None | Some a \<Rightarrow>
      (case substr newIdString 10 4 of None \<Rightarrow> None | Some b \<Rightarrow>
      (case substr newIdString 15 4 of None \<Rightarrow> None | Some c \<Rightarrow>
      (case substr newIdString 20 4 of None \<Rightarrow> None | Some d \<Rightarrow>
      (case substr newIdString 25 12 of None \<Rightarrow> None | Some e \<Rightarrow>
        (let newRawId = rev (a @ b @ c @ d @ e) in
         (case substr newRawId 0 8 of None \<Rightarrow> None | Some a' \<Rightarrow>
         (case substr newRawId 8 4 of None \<Rightarrow> None | Some b' \<Rightarrow>
         (case substr newRawId 12 4 of None \<Rightarrow> None | Some c' \<Rightarrow>
         (case substr newRawId 16 4 of None \<Rightarrow> None | Some d' \<Rightarrow>
         (case substr newRawId 20 12 of None \<Rightarrow> None | Some e' \<Rightarrow>
           Some (''{'' @ a' @ ''-'' @ b' @ ''-'' @ c' @ ''-'' @ d' @ ''-'' @ e' @ ''}'')))))))))))))"

text \<open>The 32 digits of a braced UUID string, and the braced string of 32 digits.\<close>

definition uuidDigits :: "string \<Rightarrow> string" where
  "uuidDigits s =
     take 8 (drop 1 s) @ take 4 (drop 10 s) @ take 4 (drop 15 s) @ take 4 (drop 20 s) @
     take 12 (drop 25 s)"

definition formatUuid :: "string \<Rightarrow> string" where
  "formatUuid raw =
     ''{'' @ take 8 raw @ ''-'' @ take 4 (drop 8 raw) @ ''-'' @ take 4 (drop 12 raw) @ ''-'' @
     take 4 (drop 16 raw) @ ''-'' @ take 12 (drop 20 raw) @ ''}''"


definition joinUuid :: "string \<Rightarrow> string \<Rightarrow> string \<Rightarrow> string \<Rightarrow> string \<Rightarrow> string" where
  "joinUuid a b c d e = ''{'' @ a @ ''-'' @ b @ ''-'' @ c @ ''-'' @ d @ ''-'' @ e @ ''}''"

lemma take_drop_segment:
  "m = k + n \<Longrightarrow> take n (drop k xs) @ drop m xs = drop k xs"
  by (metis add.commute append_take_drop_id drop_drop)

lemma segments_32:
  "take 8 raw @ take 4 (drop 8 raw) @ take 4 (drop 12 raw) @ take 4 (drop 16 raw) @ drop 20 raw = raw"
proof -
  have "take 4 (drop 16 raw) @ drop 20 raw = drop 16 raw"
    by (rule take_drop_segment) simp
  moreover have "take 4 (drop 12 raw) @ drop 16 raw = drop 12 raw"
    by (rule take_drop_segment) simp
  moreover have "take 4 (drop 8 raw) @ drop 12 raw = drop 8 raw"
    by (rule take_drop_segment) simp
  ultimately show ?thesis by simp
qed

lemma uuidDigits_formatUuid: "length raw = 32 \<Longrightarrow> uuidDigits (formatUuid raw) = raw"
proof -
  assume l: "length raw = 32"
  have "uuidDigits (formatUuid raw) =
      take 8 raw @ take 4 (drop 8 raw) @ take 4 (drop 12 raw) @ take 4 (drop 16 raw) @
      take 12 (drop 20 raw)"
    using l by (simp add: uuidDigits_def formatUuid_def)
  also have "\<dots> = take 8 raw @ take 4 (drop 8 raw) @ take 4 (drop 12 raw) @ take 4 (drop 16 raw) @
      drop 20 raw"
    using l by simp
  also have "\<dots> = raw"
    by (rule segments_32)
  finally show ?thesis .
qed

lemma length_uuidDigits: "length s = 38 \<Longrightarrow> length (uuidDigits s) = 32"
  by (simp add: uuidDigits_def)

lemma char_then_drop:
  assumes "i < length xs" and "j = Suc i" and "xs ! i = c"
  shows "drop i xs = c # drop j xs"
  using assms by (metis Cons_nth_drop_Suc)

lemma wellFormedUuid_decompose:
  assumes "wellFormedUuid s"
  shows "s = ''{'' @ take 8 (drop 1 s) @ ''-'' @ take 4 (drop 10 s) @ ''-'' @ take 4 (drop 15 s) @
           ''-'' @ take 4 (drop 20 s) @ ''-'' @ take 12 (drop 25 s) @ ''}''"
proof -
  from assms have l: "length s = 38"
    and c0: "s ! 0 = CHR ''{''" and c37: "s ! 37 = CHR ''}''" and c9: "s ! 9 = CHR ''-''"
    and c14: "s ! 14 = CHR ''-''" and c19: "s ! 19 = CHR ''-''" and c24: "s ! 24 = CHR ''-''"
    by (simp_all add: wellFormedUuid_def)
  define A where "A = take 8 (drop 1 s)"
  define B where "B = take 4 (drop 10 s)"
  define C where "C = take 4 (drop 15 s)"
  define D where "D = take 4 (drop 20 s)"
  define E where "E = take 12 (drop 25 s)"
  have d38: "drop 38 s = []"
    by (simp add: l)
  have d37: "drop 37 s = CHR ''}'' # drop 38 s"
    by (rule char_then_drop [OF _ _ c37]) (simp_all add: l)
  have d25: "drop 25 s = E @ drop 37 s"
    unfolding E_def by (rule take_drop_segment [symmetric]) simp
  have d24: "drop 24 s = CHR ''-'' # drop 25 s"
    by (rule char_then_drop [OF _ _ c24]) (simp_all add: l)
  have d20: "drop 20 s = D @ drop 24 s"
    unfolding D_def by (rule take_drop_segment [symmetric]) simp
  have d19: "drop 19 s = CHR ''-'' # drop 20 s"
    by (rule char_then_drop [OF _ _ c19]) (simp_all add: l)
  have d15: "drop 15 s = C @ drop 19 s"
    unfolding C_def by (rule take_drop_segment [symmetric]) simp
  have d14: "drop 14 s = CHR ''-'' # drop 15 s"
    by (rule char_then_drop [OF _ _ c14]) (simp_all add: l)
  have d10: "drop 10 s = B @ drop 14 s"
    unfolding B_def by (rule take_drop_segment [symmetric]) simp
  have d9: "drop 9 s = CHR ''-'' # drop 10 s"
    by (rule char_then_drop [OF _ _ c9]) (simp_all add: l)
  have d1: "drop 1 s = A @ drop 9 s"
    unfolding A_def by (rule take_drop_segment [symmetric]) simp
  have d0: "drop 0 s = CHR ''{'' # drop 1 s"
    by (rule char_then_drop [OF _ _ c0]) (simp_all add: l)
  have "drop 0 s = ''{'' @ A @ ''-'' @ B @ ''-'' @ C @ ''-'' @ D @ ''-'' @ E @ ''}''"
    by (simp only: d0 d1 d9 d10 d14 d15 d19 d20 d24 d25 d37 d38 append_Cons append_Nil)
  then show ?thesis
    unfolding A_def B_def C_def D_def E_def by (simp only: drop_0)
qed


lemma joinUuid_segments:
  assumes "length a = 8" "length b = 4" "length c = 4" "length d = 4" "length e = 12"
  shows "length (joinUuid a b c d e) = 38"
    and "take 8 (drop 1 (joinUuid a b c d e)) = a"
    and "take 4 (drop 10 (joinUuid a b c d e)) = b"
    and "take 4 (drop 15 (joinUuid a b c d e)) = c"
    and "take 4 (drop 20 (joinUuid a b c d e)) = d"
    and "take 12 (drop 25 (joinUuid a b c d e)) = e"
  using assms by (simp_all add: joinUuid_def)

lemma joinUuid_marks:
  assumes "length a = 8" "length b = 4" "length c = 4" "length d = 4" "length e = 12"
  shows "joinUuid a b c d e ! 0 = CHR ''{''"
    and "joinUuid a b c d e ! 9 = CHR ''-''"
    and "joinUuid a b c d e ! 14 = CHR ''-''"
    and "joinUuid a b c d e ! 19 = CHR ''-''"
    and "joinUuid a b c d e ! 24 = CHR ''-''"
    and "joinUuid a b c d e ! 37 = CHR ''}''"
  using assms by (simp_all add: joinUuid_def nth_append nth_Cons')


lemma formatUuid_joinUuid:
  "formatUuid raw =
     joinUuid (take 8 raw) (take 4 (drop 8 raw)) (take 4 (drop 12 raw)) (take 4 (drop 16 raw))
       (take 12 (drop 20 raw))"
  by (simp add: formatUuid_def joinUuid_def)

lemma raw_segment_lengths:
  assumes "length raw = 32"
  shows "length (take 8 raw) = 8" "length (take 4 (drop 8 raw)) = 4"
    "length (take 4 (drop 12 raw)) = 4" "length (take 4 (drop 16 raw)) = 4"
    "length (take 12 (drop 20 raw)) = 12"
  using assms by simp_all

lemma uuid_segment_lengths:
  assumes "length s = 38"
  shows "length (take 8 (drop 1 s)) = 8" "length (take 4 (drop 10 s)) = 4"
    "length (take 4 (drop 15 s)) = 4" "length (take 4 (drop 20 s)) = 4"
    "length (take 12 (drop 25 s)) = 12"
  using assms by simp_all

lemma length_formatUuid: "length raw = 32 \<Longrightarrow> length (formatUuid raw) = 38"
  unfolding formatUuid_joinUuid
  by (rule joinUuid_segments(1)) (simp_all)

lemma formatUuid_uuidDigits:
  assumes "wellFormedUuid s"
  shows "formatUuid (uuidDigits s) = s"
proof -
  from assms have l: "length s = 38"
    by (simp add: wellFormedUuid_def)
  note n = uuid_segment_lengths [OF l]
  have "formatUuid (uuidDigits s) =
      joinUuid (take 8 (drop 1 s)) (take 4 (drop 10 s)) (take 4 (drop 15 s)) (take 4 (drop 20 s))
        (take 12 (drop 25 s))"
    unfolding formatUuid_joinUuid uuidDigits_def using n by simp
  also have "\<dots> = s"
    unfolding joinUuid_def by (rule wellFormedUuid_decompose [OF assms, symmetric])
  finally show ?thesis .
qed

lemma list_all_segment: "list_all P xs \<Longrightarrow> list_all P (take n (drop k xs))"
  by (auto simp: list_all_iff dest: in_set_takeD in_set_dropD)

lemma wellFormedUuid_formatUuid:
  assumes l: "length raw = 32" and h: "list_all isHexDigit raw"
  shows "wellFormedUuid (formatUuid raw)"
proof -
  note n = raw_segment_lengths [OF l]
  note seg = joinUuid_segments [OF n] and marks = joinUuid_marks [OF n]
  show ?thesis
    unfolding wellFormedUuid_def formatUuid_joinUuid seg marks
    by (simp add: list_all_segment [OF h] list_all_segment [OF h, of _ 0, simplified])
qed

lemma hex_uuidDigits:
  assumes "wellFormedUuid s"
  shows "list_all isHexDigit (uuidDigits s)"
  using assms by (simp add: wellFormedUuid_def uuidDigits_def)

lemma reverseUuid_format:
  assumes c: "uuidToString ext s = s" and l: "length s = 38"
  shows "reverseUuid ext s = Some (formatUuid (rev (uuidDigits s)))"
proof -
  have s1: "substr s 1 8 = Some (take 8 (drop 1 s))"
    "substr s 10 4 = Some (take 4 (drop 10 s))"
    "substr s 15 4 = Some (take 4 (drop 15 s))"
    "substr s 20 4 = Some (take 4 (drop 20 s))"
    "substr s 25 12 = Some (take 12 (drop 25 s))"
    by (simp_all add: substr_def l)
  let ?raw = "rev (uuidDigits s)"
  have lr: "length ?raw = 32"
    by (simp add: length_uuidDigits [OF l])
  have s2: "substr ?raw 0 8 = Some (take 8 ?raw)"
    "substr ?raw 8 4 = Some (take 4 (drop 8 ?raw))"
    "substr ?raw 12 4 = Some (take 4 (drop 12 ?raw))"
    "substr ?raw 16 4 = Some (take 4 (drop 16 ?raw))"
    "substr ?raw 20 12 = Some (take 12 (drop 20 ?raw))"
    using lr by (simp_all add: substr_def)
  have d: "take 8 (drop 1 s) @ take 4 (drop 10 s) @ take 4 (drop 15 s) @ take 4 (drop 20 s) @
      take 12 (drop 25 s) = uuidDigits s"
    by (simp add: uuidDigits_def)
  show ?thesis
    unfolding reverseUuid_def Let_def c s1 option.case d s2 formatUuid_def ..
qed


text \<open>
  C7 (as amended). Let \<open>to_string(Uuid(s))\<close> be \<open>s\<close> for every well-formed UUID string. On
  well-formed UUID strings \<open>reverseUuid\<close> returns a well-formed UUID string and is its own
  inverse, so it is a bijection on them, and it is injective; its result is the input
  itself exactly when the 32 digits of the input read the same in both directions.
\<close>

theorem reverseUuid_involution:
  assumes canon: "\<forall>s. wellFormedUuid s \<longrightarrow> uuidToString ext s = s"
    and s: "wellFormedUuid s" and t: "wellFormedUuid t"
  shows "(\<exists>r. reverseUuid ext s = Some r \<and> wellFormedUuid r \<and> reverseUuid ext r = Some s) \<and>
         (reverseUuid ext s = reverseUuid ext t \<longrightarrow> s = t) \<and>
         (reverseUuid ext s = Some s \<longleftrightarrow> rev (uuidDigits s) = uuidDigits s)"
proof -
  have fmt: "reverseUuid ext u = Some (formatUuid (rev (uuidDigits u)))"
    and len: "length (rev (uuidDigits u)) = 32"
    and hex: "list_all isHexDigit (rev (uuidDigits u))"
    and rt: "formatUuid (uuidDigits u) = u"
    if "wellFormedUuid u" for u
  proof -
    from that have l: "length u = 38" by (simp add: wellFormedUuid_def)
    from canon that have c: "uuidToString ext u = u" by blast
    show "reverseUuid ext u = Some (formatUuid (rev (uuidDigits u)))"
      by (rule reverseUuid_format [OF c l])
    show "length (rev (uuidDigits u)) = 32"
      by (simp add: length_uuidDigits [OF l])
    show "list_all isHexDigit (rev (uuidDigits u))"
      using hex_uuidDigits [OF that] by simp
    show "formatUuid (uuidDigits u) = u"
      by (rule formatUuid_uuidDigits [OF that])
  qed
  let ?r = "formatUuid (rev (uuidDigits s))"
  have wr: "wellFormedUuid ?r"
    by (rule wellFormedUuid_formatUuid [OF len [OF s] hex [OF s]])
  have dr: "uuidDigits ?r = rev (uuidDigits s)"
    by (rule uuidDigits_formatUuid [OF len [OF s]])
  have "reverseUuid ext ?r = Some s"
    unfolding fmt [OF wr] dr by (simp add: rt [OF s])
  with fmt [OF s] wr
  have inv: "\<exists>r. reverseUuid ext s = Some r \<and> wellFormedUuid r \<and> reverseUuid ext r = Some s"
    by blast
  have inj: "s = t" if eq: "reverseUuid ext s = reverseUuid ext t"
  proof -
    from eq have "formatUuid (rev (uuidDigits s)) = formatUuid (rev (uuidDigits t))"
      unfolding fmt [OF s] fmt [OF t] by simp
    then have "uuidDigits (formatUuid (rev (uuidDigits s))) =
        uuidDigits (formatUuid (rev (uuidDigits t)))"
      by simp
    then have "rev (uuidDigits s) = rev (uuidDigits t)"
      unfolding uuidDigits_formatUuid [OF len [OF s]] uuidDigits_formatUuid [OF len [OF t]] .
    then have "formatUuid (uuidDigits s) = formatUuid (uuidDigits t)"
      by simp
    then show ?thesis
      unfolding rt [OF s] rt [OF t] .
  qed
  have fixed: "reverseUuid ext s = Some s \<longleftrightarrow> rev (uuidDigits s) = uuidDigits s"
  proof
    assume "reverseUuid ext s = Some s"
    then have "?r = s" unfolding fmt [OF s] by simp
    then have "uuidDigits ?r = uuidDigits s" by simp
    then show "rev (uuidDigits s) = uuidDigits s" unfolding dr .
  next
    assume "rev (uuidDigits s) = uuidDigits s"
    then show "reverseUuid ext s = Some s"
      unfolding fmt [OF s] by (simp add: rt [OF s])
  qed
  from inv inj fixed show ?thesis by blast
qed

lemma specExternals_canonical:
  "\<forall>s. wellFormedUuid s \<longrightarrow> uuidToString specExternals s = s"
  by (simp add: specExternals_def)

theorem reverseUuid_involution_witness:
  "wellFormedUuid ''{12345678-abcd-ef00-00fe-dcba87654320}'' \<and>
   reverseUuid specExternals ''{12345678-abcd-ef00-00fe-dcba87654320}'' \<noteq>
     Some ''{12345678-abcd-ef00-00fe-dcba87654320}'' \<and>
   reverseUuid specExternals ''{12345678-abcd-ef00-00fe-dcba87654320}'' \<noteq>
     reverseUuid specExternals ''{12345678-abcd-ef00-00fe-dcba87654321}''"
proof -
  have a: "wellFormedUuid ''{12345678-abcd-ef00-00fe-dcba87654320}''"
    by (simp add: wellFormedUuid_def isHexDigit_def)
  have b: "wellFormedUuid ''{12345678-abcd-ef00-00fe-dcba87654321}''"
    by (simp add: wellFormedUuid_def isHexDigit_def)
  have d: "rev (uuidDigits ''{12345678-abcd-ef00-00fe-dcba87654320}'') \<noteq>
      uuidDigits ''{12345678-abcd-ef00-00fe-dcba87654320}''"
    by (simp add: uuidDigits_def)
  have n: "''{12345678-abcd-ef00-00fe-dcba87654320}'' \<noteq> ''{12345678-abcd-ef00-00fe-dcba87654321}''"
    by simp
  from reverseUuid_involution [OF specExternals_canonical a b] a d n
  show ?thesis by blast
qed

text \<open>
  A UUID whose 32 digits are a palindrome is its own mirror id: \<open>reverseUuid\<close> does not
  yield an id distinct from its input there.
\<close>

theorem reverseUuid_palindrome_counterexample:
  "wellFormedUuid ''{12345678-abcd-ef00-00fe-dcba87654321}'' \<and>
   reverseUuid specExternals ''{12345678-abcd-ef00-00fe-dcba87654321}'' =
     Some ''{12345678-abcd-ef00-00fe-dcba87654321}''"
  by (simp add: reverseUuid_def specExternals_def wellFormedUuid_def isHexDigit_def substr_def)

subsection \<open>Combining a list of meshes\<close>

text \<open>
  \<open>MeshCombiner::Mesh\<close>, the engine \<open>MeshCombiner::combine\<close> and the \<open>MeshRecombiner\<close> are
  external: they are the fields of \<open>MeshLib\<close>, over an abstract type of meshes. A mesh
  pointer is an \<open>option\<close>, \<open>None\<close> for \<open>nullptr\<close>. \<open>combine\<close> also yields the sources of the
  combined vertices, which only the recombiner reads.
\<close>

datatype Method = UnionMethod | DiffMethod

record ('m, 'v, 's) MeshLib =
  isNull :: "'m \<Rightarrow> bool"
  isCombinable :: "'m \<Rightarrow> bool"
  combine :: "'m \<Rightarrow> 'm \<Rightarrow> Method \<Rightarrow> ('m \<times> 's) option"
  fetch :: "'m \<Rightarrow> 'v list \<times> face list"
  recombine :: "'v list \<Rightarrow> 's \<Rightarrow> face list \<Rightarrow> ('v list \<times> face list) option"
  newMesh :: "'v list \<Rightarrow> face list \<Rightarrow> 'm"

definition combineTwoMeshes ::
  "('m, 'v, 's, 'x) MeshLib_scheme \<Rightarrow> 'm \<Rightarrow> 'm \<Rightarrow> Method \<Rightarrow> bool \<Rightarrow> 'm option" where
  "combineTwoMeshes lib first second method recombineFlag =
     (if isNull lib first \<or> isNull lib second then None
      else
        (case combine lib first second method of
           None \<Rightarrow> None
         | Some (combined, combinedVerticesSources) \<Rightarrow>
             (let result =
                (if \<not> isNull lib combined \<and> recombineFlag then
                   (case fetch lib combined of (combinedVertices, combinedFaces) \<Rightarrow>
                      (case recombine lib combinedVertices combinedVerticesSources combinedFaces of
                         None \<Rightarrow> combined
                       | Some (regeneratedVertices, regeneratedFaces) \<Rightarrow>
                           if isWatertight regeneratedFaces then
                             (let reMesh = newMesh lib regeneratedVertices regeneratedFaces in
                              if \<not> isNull lib reMesh \<and> isCombinable lib reMesh then reMesh
                              else combined)
                           else combined))
                 else combined)
              in if isNull lib result then None else Some result)))"

text \<open>
  The part of the generator that \<open>combineMultipleMeshes\<close> reads and writes: the combination
  cache (a \<open>std::map\<close>, here the association list of its entries; a key is only inserted
  after it was not found) and the overall success flag. \<open>combineSubMesh\<close> is one pass of
  the loop body, over the locals \<open>mesh\<close> and \<open>meshIdStrings\<close> and the generator state.
\<close>

record 'm CombinerState =
  cachedCombination :: "(string \<times> 'm option) list"
  isSuccessful :: bool

type_synonym 'm subMeshEntry = "'m option \<times> CombineMode \<times> string"

definition combineSubMesh ::
  "('m, 'v, 's, 'x) MeshLib_scheme \<Rightarrow> bool \<Rightarrow> 'm option \<times> string \<times> ('m, 'z) CombinerState_scheme \<Rightarrow>
   'm subMeshEntry \<Rightarrow> 'm option \<times> string \<times> ('m, 'z) CombinerState_scheme" where
  "combineSubMesh lib recombineFlag acc it =
     (case acc of (mesh, meshIdStrings, st) \<Rightarrow>
      (case it of (subMeshPtr, childCombineMode, subMeshIdString) \<Rightarrow>
        (case subMeshPtr of
           None \<Rightarrow> (mesh, meshIdStrings, st)
         | Some subMesh \<Rightarrow>
             if isNull lib subMesh then (mesh, meshIdStrings, st)
             else if \<not> isCombinable lib subMesh then (mesh, meshIdStrings, st)
             else
               (case mesh of
                  None \<Rightarrow> (Some subMesh, subMeshIdString, st)
                | Some accumulated \<Rightarrow>
                    (let combinerMethod =
                           (if childCombineMode = Inversion then DiffMethod else UnionMethod);
                         combinerMethodString =
                           (if combinerMethod = UnionMethod then ''+'' else ''-'');
                         ids = meshIdStrings @ combinerMethodString @ subMeshIdString;
                         ids' = (if recombineFlag then ids @ ''!'' else ids);
                         found = map_of (cachedCombination st) ids';
                         produced =
                           (case found of
                              Some cached \<Rightarrow> cached
                            | None \<Rightarrow> combineTwoMeshes lib accumulated subMesh combinerMethod
                                        recombineFlag);
                         st' =
                           (case found of
                              Some cached \<Rightarrow> st
                            | None \<Rightarrow>
                                st\<lparr>cachedCombination := cachedCombination st @ [(ids', produced)]\<rparr>)
                     in (case produced of
                           None \<Rightarrow> (mesh, ids', st'\<lparr>isSuccessful := False\<rparr>)
                         | Some created \<Rightarrow>
                             if \<not> isNull lib created then (Some created, ids', st')
                             else (mesh, ids', st'\<lparr>isSuccessful := False\<rparr>)))))))"

definition combineMultipleMeshes ::
  "('m, 'v, 's, 'x) MeshLib_scheme \<Rightarrow> 'm subMeshEntry list \<Rightarrow> bool \<Rightarrow> ('m, 'z) CombinerState_scheme \<Rightarrow>
   'm option \<times> ('m, 'z) CombinerState_scheme" where
  "combineMultipleMeshes lib multipleMeshes recombineFlag st =
     (case foldl (combineSubMesh lib recombineFlag) (None, [], st) multipleMeshes of
        (mesh, meshIdStrings, st') \<Rightarrow>
          (case mesh of
             None \<Rightarrow> (None, st')
           | Some m \<Rightarrow> if isNull lib m then (None, st') else (Some m, st')))"

text \<open>An entry the loop does not skip: a mesh that is neither null nor incombinable.\<close>

definition usable :: "('m, 'v, 's, 'x) MeshLib_scheme \<Rightarrow> 'm subMeshEntry \<Rightarrow> bool" where
  "usable lib it =
     (case fst it of None \<Rightarrow> False | Some subMesh \<Rightarrow> \<not> isNull lib subMesh \<and> isCombinable lib subMesh)"

text \<open>
  The cache keys a call adds all begin with the given id string: a key is either in the
  cache before the call or has the id string as a prefix.
\<close>

definition newKeysBeginWith ::
  "string \<Rightarrow> ('m, 'z) CombinerState_scheme \<Rightarrow> ('m, 'z) CombinerState_scheme \<Rightarrow> bool" where
  "newKeysBeginWith ident st st' \<longleftrightarrow>
     (\<forall>k \<in> set (map fst (cachedCombination st')).
        k \<in> set (map fst (cachedCombination st)) \<or> prefix ident k)"

text \<open>
  A mesh library for running the combiner: a mesh is the string that names it, the empty
  string is the null mesh, the mesh \<open>open\<close> is not combinable, and the engine writes the
  operation it was asked for.
\<close>

definition demoMeshLib :: "(string, unit, unit) MeshLib" where
  "demoMeshLib =
     \<lparr>isNull = (\<lambda>m. m = []),
      isCombinable = (\<lambda>m. m \<noteq> ''open''),
      combine = (\<lambda>a b method.
        Some (''('' @ a @ (if method = UnionMethod then ''+'' else ''-'') @ b @ '')'', ())),
      fetch = (\<lambda>m. ([], [])),
      recombine = (\<lambda>vertices sources faces. None),
      newMesh = (\<lambda>vertices faces. [])\<rparr>"

definition emptyCombinerState :: "string CombinerState" where
  "emptyCombinerState = \<lparr>cachedCombination = [], isSuccessful = True\<rparr>"

lemma combineSubMesh_skip:
  "\<not> usable lib it \<Longrightarrow> combineSubMesh lib rc acc it = acc"
  by (cases acc; cases it) (auto simp: combineSubMesh_def usable_def split: option.splits)

lemma foldl_combineSubMesh_skip:
  "\<forall>it \<in> set pre. \<not> usable lib it \<Longrightarrow> foldl (combineSubMesh lib rc) acc pre = acc"
  by (induction pre arbitrary: acc) (simp_all add: combineSubMesh_skip)

lemma combineSubMesh_first:
  "usable lib (Some m, mode, ident) \<Longrightarrow>
   combineSubMesh lib rc (None, ids, st) (Some m, mode, ident) = (Some m, ident, st)"
  by (simp add: combineSubMesh_def usable_def)

lemma foldl_combineSubMesh_filter:
  "foldl (combineSubMesh lib rc) acc xs = foldl (combineSubMesh lib rc) acc (filter (usable lib) xs)"
  by (induction xs arbitrary: acc) (simp_all add: combineSubMesh_skip)


lemma newKeysBeginWith_refl: "newKeysBeginWith ident st st"
  by (simp add: newKeysBeginWith_def)

lemma newKeysBeginWith_trans:
  assumes "newKeysBeginWith ident st st'" and "newKeysBeginWith ident' st' st''"
    and "prefix ident ident'"
  shows "newKeysBeginWith ident st st''"
  using assms unfolding newKeysBeginWith_def
  by (meson prefix_order.trans)

lemma combineSubMesh_keys:
  assumes "combineSubMesh lib rc (Some a, ids, st) it = (mesh', ids', st')"
  shows "mesh' \<noteq> None \<and> prefix ids ids' \<and> newKeysBeginWith ids' st st'"
proof (cases "usable lib it")
  case False
  with assms show ?thesis
    by (auto simp: combineSubMesh_skip newKeysBeginWith_refl)
next
  case True
  obtain sub mode ident where it: "it = (Some sub, mode, ident)"
    and ok: "\<not> isNull lib sub" "isCombinable lib sub"
    using True by (cases it; cases "fst it") (auto simp: usable_def)
  show ?thesis
    using assms unfolding it
    by (auto simp: combineSubMesh_def Let_def ok newKeysBeginWith_def
        split: option.splits if_splits) metis+
qed

lemma foldl_combineSubMesh_keys:
  assumes "foldl (combineSubMesh lib rc) (Some a, ids, st) xs = (mesh', ids', st')"
  shows "mesh' \<noteq> None \<and> prefix ids ids' \<and> newKeysBeginWith ids st st'"
  using assms
proof (induction xs arbitrary: a ids st)
  case Nil
  then show ?case by (auto simp: newKeysBeginWith_refl)
next
  case (Cons x xs)
  obtain m1 ids1 st1 where step: "combineSubMesh lib rc (Some a, ids, st) x = (m1, ids1, st1)"
    by (cases "combineSubMesh lib rc (Some a, ids, st) x") auto
  from combineSubMesh_keys [OF step] obtain a1 where m1: "m1 = Some a1"
    and p1: "prefix ids ids1" and k1: "newKeysBeginWith ids1 st st1"
    by auto
  from Cons.prems have "foldl (combineSubMesh lib rc) (Some a1, ids1, st1) xs = (mesh', ids', st')"
    by (simp add: step m1)
  from Cons.IH [OF this] have r: "mesh' \<noteq> None" "prefix ids1 ids'" "newKeysBeginWith ids1 st1 st'"
    by auto
  have k1': "newKeysBeginWith ids st st1"
    using k1 p1 unfolding newKeysBeginWith_def by (meson prefix_order.trans)
  have k2': "newKeysBeginWith ids st1 st'"
    using r(3) p1 unfolding newKeysBeginWith_def by (meson prefix_order.trans)
  from r(1) p1 r(2) newKeysBeginWith_trans [OF k1' k2'] show ?case
    by (auto intro: prefix_order.trans)
qed

text \<open>
  C10. Let the entries before \<open>(m, mode, ident)\<close> all be skipped and \<open>m\<close> be neither null nor
  incombinable. After that entry the accumulator is \<open>m\<close> itself, the combination string is
  \<open>ident\<close> with no operator in front, and the generator state is untouched: no operation of
  the engine has run. If it is the last usable entry the call returns \<open>m\<close>. The combine
  mode of the entry is never read: any other mode gives the same result and state, so an
  \<open>Inversion\<close> entry in first place is not subtracted. Every key the call adds to the
  combination cache begins with \<open>ident\<close>.
\<close>

theorem combineMultipleMeshes_first_accumulator:
  assumes pre: "\<forall>it \<in> set pre. \<not> usable lib it"
    and first: "usable lib (Some m, mode, ident)"
  shows "foldl (combineSubMesh lib rc) (None, [], st) (pre @ [(Some m, mode, ident)]) =
           (Some m, ident, st) \<and>
         combineMultipleMeshes lib (pre @ [(Some m, mode, ident)]) rc st = (Some m, st) \<and>
         combineMultipleMeshes lib (pre @ (Some m, mode, ident) # rest) rc st =
           combineMultipleMeshes lib (pre @ (Some m, mode', ident) # rest) rc st \<and>
         newKeysBeginWith ident st
           (snd (combineMultipleMeshes lib (pre @ (Some m, mode, ident) # rest) rc st))"
proof -
  from first have first': "usable lib (Some m, mode', ident)"
    by (simp add: usable_def)
  from first have nn: "\<not> isNull lib m"
    by (simp add: usable_def)
  have start: "foldl (combineSubMesh lib rc) (None, [], st) (pre @ [(Some m, md, ident)]) =
      (Some m, ident, st)" if "usable lib (Some m, md, ident)" for md
    by (simp add: foldl_combineSubMesh_skip [OF pre] combineSubMesh_first [OF that])
  have whole: "foldl (combineSubMesh lib rc) (None, [], st) (pre @ (Some m, md, ident) # rest) =
      foldl (combineSubMesh lib rc) (Some m, ident, st) rest" if "usable lib (Some m, md, ident)" for md
    by (simp add: foldl_combineSubMesh_skip [OF pre] combineSubMesh_first [OF that])
  have a: "combineMultipleMeshes lib (pre @ [(Some m, mode, ident)]) rc st = (Some m, st)"
    unfolding combineMultipleMeshes_def start [OF first] using nn by simp
  have b: "combineMultipleMeshes lib (pre @ (Some m, mode, ident) # rest) rc st =
      combineMultipleMeshes lib (pre @ (Some m, mode', ident) # rest) rc st"
    unfolding combineMultipleMeshes_def whole [OF first] whole [OF first'] ..
  obtain mesh' ids' st' where f: "foldl (combineSubMesh lib rc) (Some m, ident, st) rest = (mesh', ids', st')"
    by (cases "foldl (combineSubMesh lib rc) (Some m, ident, st) rest") auto
  from foldl_combineSubMesh_keys [OF f] have k: "newKeysBeginWith ident st st'"
    by simp
  have c: "snd (combineMultipleMeshes lib (pre @ (Some m, mode, ident) # rest) rc st) = st'"
    unfolding combineMultipleMeshes_def whole [OF first] f
    by (simp split: option.splits)
  from start [OF first] a b k show ?thesis
    unfolding c by simp
qed


theorem combineMultipleMeshes_first_accumulator_witness:
  "\<not> usable demoMeshLib (None, Normal, ''n'') \<and>
   usable demoMeshLib (Some ''A'', Inversion, ''a'') \<and>
   combineMultipleMeshes demoMeshLib
     [(None, Normal, ''n''), (Some ''A'', Inversion, ''a''), (Some ''B'', Normal, ''b'')] True
     emptyCombinerState =
     (Some ''(A+B)'', \<lparr>cachedCombination = [(''a+b!'', Some ''(A+B)'')], isSuccessful = True\<rparr>)"
proof -
  have p: "\<forall>it \<in> set [(None, Normal, ''n'')]. \<not> usable demoMeshLib it"
    by (simp add: usable_def)
  have u: "usable demoMeshLib (Some ''A'', Inversion, ''a'')"
    by (simp add: usable_def demoMeshLib_def)
  have n: "combineMultipleMeshes demoMeshLib
     ([(None, Normal, ''n'')] @ (Some ''A'', Normal, ''a'') # [(Some ''B'', Normal, ''b'')]) True
     emptyCombinerState =
     (Some ''(A+B)'', \<lparr>cachedCombination = [(''a+b!'', Some ''(A+B)'')], isSuccessful = True\<rparr>)"
    by (simp add: combineMultipleMeshes_def combineSubMesh_def combineTwoMeshes_def
        demoMeshLib_def emptyCombinerState_def Let_def)
  from combineMultipleMeshes_first_accumulator [OF p u, of True emptyCombinerState
      "[(Some ''B'', Normal, ''b'')]" Normal]
  have "combineMultipleMeshes demoMeshLib
     ([(None, Normal, ''n'')] @ (Some ''A'', Inversion, ''a'') # [(Some ''B'', Normal, ''b'')]) True
     emptyCombinerState =
     combineMultipleMeshes demoMeshLib
     ([(None, Normal, ''n'')] @ (Some ''A'', Normal, ''a'') # [(Some ''B'', Normal, ''b'')]) True
     emptyCombinerState"
    by blast
  with n p u show ?thesis by simp
qed

subsection \<open>Dirty flags\<close>

text \<open>
  \<open>collectParts\<close> indexes the nodes by the part they belong to (\<open>m_partNodeIds\<close>; the edges
  are indexed alike and are not read by the dirty analysis). A node without a \<open>partId\<close> is
  skipped.
\<close>

fun collectPartNodes ::
  "(string \<times> attributes) list \<Rightarrow> (string \<Rightarrow> string set) \<Rightarrow> (string \<Rightarrow> string set)" where
  "collectPartNodes [] partNodeIds = partNodeIds"
| "collectPartNodes (node # rest) partNodeIds =
     (let partId = valueOrEmpty (snd node) ''partId'' in
      if partId = [] then collectPartNodes rest partNodeIds
      else collectPartNodes rest (partNodeIds(partId := insert (fst node) (partNodeIds partId))))"

definition collectParts :: "Snapshot \<Rightarrow> string \<Rightarrow> string set" where
  "collectParts snapshot = collectPartNodes (nodes snapshot) (\<lambda>partId. {})"

text \<open>
  A part is dirty when it exists and its \<open>__dirty\<close> attribute is true. A dependency of a
  part is dirty when the part's \<open>cutFace\<close>, or the \<open>cutFace\<close> of one of its nodes, parses to a
  UUID that is not nil and names a dirty part.
\<close>

definition checkIsPartDirty :: "'x Externals_scheme \<Rightarrow> Snapshot \<Rightarrow> string \<Rightarrow> bool" where
  "checkIsPartDirty ext snapshot partIdString =
     (case parts snapshot partIdString of
        None \<Rightarrow> False
      | Some part \<Rightarrow> isTrue ext (valueOrEmpty part ''__dirty''))"

definition checkIsPartDependencyDirty ::
  "'x Externals_scheme \<Rightarrow> Snapshot \<Rightarrow> (string \<Rightarrow> string set) \<Rightarrow> string \<Rightarrow> bool" where
  "checkIsPartDependencyDirty ext snapshot partNodeIds partIdString =
     (case parts snapshot partIdString of
        None \<Rightarrow> False
      | Some part \<Rightarrow>
          (let cutFaceString = valueOrEmpty part ''cutFace'' in
           if \<not> uuidIsNull ext cutFaceString \<and> checkIsPartDirty ext snapshot cutFaceString
           then True
           else
             (\<exists>nodeIdString \<in> partNodeIds partIdString.
                (case map_of (nodes snapshot) nodeIdString of
                   None \<Rightarrow> False
                 | Some node \<Rightarrow>
                     (let cutFaceString = valueOrEmpty node ''cutFace'' in
                      \<not> uuidIsNull ext cutFaceString \<and>
                      checkIsPartDirty ext snapshot cutFaceString)))))"

text \<open>
  The two sets the analysis fills. \<open>checkIsComponentDirty\<close> recurses through the children
  lists and does not return on a cyclic component graph, so the model takes fuel and yields
  \<open>None\<close> when it runs out. \<open>checkLinkedPart\<close> is the block of \<open>checkIsComponentDirty\<close> for a
  component linked to a part, \<open>checkChildren\<close> its loop over the children, with the
  recursive call as an argument; both work on the local \<open>isDirty\<close> and the state.
\<close>

record DirtyState =
  dirtyPartIds :: "string set"
  dirtyComponentIds :: "string set"

fun checkChildren ::
  "(string \<Rightarrow> DirtyState \<Rightarrow> (bool \<times> DirtyState) option) \<Rightarrow> string list \<Rightarrow> bool \<times> DirtyState \<Rightarrow>
   (bool \<times> DirtyState) option" where
  "checkChildren check [] acc = Some acc"
| "checkChildren check (childId # rest) acc =
     (if childId = [] then checkChildren check rest acc
      else
        (case check childId (snd acc) of
           None \<Rightarrow> None
         | Some (childDirty, st) \<Rightarrow> checkChildren check rest (fst acc \<or> childDirty, st)))"

definition checkLinkedPart ::
  "'x Externals_scheme \<Rightarrow> Snapshot \<Rightarrow> (string \<Rightarrow> string set) \<Rightarrow> attributes \<Rightarrow> bool \<times> DirtyState \<Rightarrow>
   bool \<times> DirtyState" where
  "checkLinkedPart ext snapshot partNodeIds component acc =
     (if valueOrEmpty component ''linkDataType'' = ''partId'' then
        (let partId = valueOrEmpty component ''linkData'';
             acc1 = (if checkIsPartDirty ext snapshot partId
                     then (True, (snd acc)\<lparr>dirtyPartIds := insert partId (dirtyPartIds (snd acc))\<rparr>)
                     else acc)
         in if \<not> fst acc1 \<and> checkIsPartDependencyDirty ext snapshot partNodeIds partId
            then (True, snd acc1) else acc1)
      else acc)"

primrec checkIsComponentDirty ::
  "nat \<Rightarrow> 'x Externals_scheme \<Rightarrow> Snapshot \<Rightarrow> (string \<Rightarrow> string set) \<Rightarrow> string \<Rightarrow> DirtyState \<Rightarrow>
   (bool \<times> DirtyState) option" where
  "checkIsComponentDirty 0 ext snapshot partNodeIds componentIdString st = None"
| "checkIsComponentDirty (Suc fuel) ext snapshot partNodeIds componentIdString st =
     (case findComponent snapshot componentIdString of
        None \<Rightarrow> Some (False, st)
      | Some component \<Rightarrow>
          (case checkChildren (checkIsComponentDirty fuel ext snapshot partNodeIds)
                  (componentChildren ext component)
                  (checkLinkedPart ext snapshot partNodeIds component
                     (isTrue ext (valueOrEmpty component ''__dirty''), st)) of
             None \<Rightarrow> None
           | Some (isDirty, st') \<Rightarrow>
               Some (isDirty,
                 if isDirty
                 then st'\<lparr>dirtyComponentIds := insert componentIdString (dirtyComponentIds st')\<rparr>
                 else st')))"

definition checkDirtyFlags :: "nat \<Rightarrow> 'x Externals_scheme \<Rightarrow> Snapshot \<Rightarrow> DirtyState option" where
  "checkDirtyFlags fuel ext snapshot =
     map_option snd
       (checkIsComponentDirty fuel ext snapshot (collectParts snapshot) nullUuidString
          \<lparr>dirtyPartIds = {}, dirtyComponentIds = {}\<rparr>)"

text \<open>
  What the claim speaks of, stated on the data of the snapshot and on none of the functions
  above. The component with an id is the virtual root for the nil UUID and the entry of the
  components map for any other id; its child ids are the non-empty entries of its
  comma-separated \<open>children\<close> attribute. A part is dirty when the snapshot has it and its
  \<open>__dirty\<close> attribute is true. A cut face reference is dirty when it parses to a non-nil UUID
  that names a dirty part. A part leaf has a dirty part when its linked part is dirty, or
  the linked part exists and its cut face, or the cut face of a node of that part, is a dirty
  reference. A component is dirty on its own account when its \<open>__dirty\<close> is true or it is
  such a leaf. A children-path lists component ids, each a child id of the component before
  it. \<open>depthBelow n\<close> bounds the depth of the component tree under an id.
\<close>

definition componentWithId :: "Snapshot \<Rightarrow> string \<Rightarrow> attributes option" where
  "componentWithId snapshot c =
     (if c = nullUuidString then Some (rootComponent snapshot) else components snapshot c)"

definition childIds :: "'x Externals_scheme \<Rightarrow> attributes \<Rightarrow> string list" where
  "childIds ext component =
     filter (\<lambda>d. d \<noteq> []) (split ext (valueOrEmpty component ''children'') (CHR '',''))"

definition partDirty :: "'x Externals_scheme \<Rightarrow> Snapshot \<Rightarrow> string \<Rightarrow> bool" where
  "partDirty ext snapshot partId \<longleftrightarrow>
     (case parts snapshot partId of
        None \<Rightarrow> False
      | Some part \<Rightarrow> isTrue ext (valueOrEmpty part ''__dirty''))"

definition cutFaceDirty :: "'x Externals_scheme \<Rightarrow> Snapshot \<Rightarrow> attributes \<Rightarrow> bool" where
  "cutFaceDirty ext snapshot attrs \<longleftrightarrow>
     \<not> uuidIsNull ext (valueOrEmpty attrs ''cutFace'') \<and>
     partDirty ext snapshot (valueOrEmpty attrs ''cutFace'')"

definition leafPartDirty :: "'x Externals_scheme \<Rightarrow> Snapshot \<Rightarrow> attributes \<Rightarrow> bool" where
  "leafPartDirty ext snapshot component \<longleftrightarrow>
     valueOrEmpty component ''linkDataType'' = ''partId'' \<and>
     (partDirty ext snapshot (valueOrEmpty component ''linkData'') \<or>
      (case parts snapshot (valueOrEmpty component ''linkData'') of
         None \<Rightarrow> False
       | Some part \<Rightarrow>
           cutFaceDirty ext snapshot part \<or>
           (valueOrEmpty component ''linkData'' \<noteq> [] \<and>
            (\<exists>node \<in> set (nodes snapshot).
               valueOrEmpty (snd node) ''partId'' = valueOrEmpty component ''linkData'' \<and>
               cutFaceDirty ext snapshot (snd node)))))"

definition ownDirty :: "'x Externals_scheme \<Rightarrow> Snapshot \<Rightarrow> string \<Rightarrow> bool" where
  "ownDirty ext snapshot c =
     (case componentWithId snapshot c of
        None \<Rightarrow> False
      | Some component \<Rightarrow>
          isTrue ext (valueOrEmpty component ''__dirty'') \<or> leafPartDirty ext snapshot component)"

fun isChildPath :: "'x Externals_scheme \<Rightarrow> Snapshot \<Rightarrow> string list \<Rightarrow> bool" where
  "isChildPath ext snapshot [] = False"
| "isChildPath ext snapshot [c] = True"
| "isChildPath ext snapshot (c # d # rest) =
     ((case componentWithId snapshot c of
         None \<Rightarrow> False
       | Some component \<Rightarrow> d \<in> set (childIds ext component)) \<and>
      isChildPath ext snapshot (d # rest))"

primrec depthBelow :: "nat \<Rightarrow> 'x Externals_scheme \<Rightarrow> Snapshot \<Rightarrow> string \<Rightarrow> bool" where
  "depthBelow 0 ext snapshot c = False"
| "depthBelow (Suc n) ext snapshot c =
     (case componentWithId snapshot c of
        None \<Rightarrow> True
      | Some component \<Rightarrow> list_all (depthBelow n ext snapshot) (childIds ext component))"

text \<open>The invariants of the recursion and of the loop over the children.\<close>

definition soundCheck ::
  "'x Externals_scheme \<Rightarrow> Snapshot \<Rightarrow> (string \<Rightarrow> DirtyState \<Rightarrow> (bool \<times> DirtyState) option) \<Rightarrow> bool" where
  "soundCheck ext snapshot check \<longleftrightarrow>
     (\<forall>c st b st'. check c st = Some (b, st') \<longrightarrow>
        dirtyComponentIds st \<subseteq> dirtyComponentIds st' \<and>
        (\<forall>path. isChildPath ext snapshot (c # path) \<and> ownDirty ext snapshot (last (c # path)) \<longrightarrow>
           b \<and> set (c # path) \<subseteq> dirtyComponentIds st'))"

definition childrenSound ::
  "'x Externals_scheme \<Rightarrow> Snapshot \<Rightarrow> string list \<Rightarrow> bool \<Rightarrow> DirtyState \<Rightarrow> bool" where
  "childrenSound ext snapshot cs d s \<longleftrightarrow>
     (\<forall>c \<in> set cs. c \<noteq> [] \<longrightarrow>
        (\<forall>path. isChildPath ext snapshot (c # path) \<and> ownDirty ext snapshot (last (c # path)) \<longrightarrow>
           d \<and> set (c # path) \<subseteq> dirtyComponentIds s))"

text \<open>
  A component tree with a leaf \<open>c\<close> under \<open>a\<close> under the root; a node of the part of \<open>c\<close>
  takes its cut face from a dirty part.
\<close>

definition dirtySnapshot :: Snapshot where
  "dirtySnapshot =
     \<lparr>parts = [''p1'' \<mapsto> Map.empty,
               ''p2'' \<mapsto> Map.empty,
               ''{11111111-2222-3333-4444-555555555555}'' \<mapsto> [''__dirty'' \<mapsto> ''true'']],
      nodes = [(''n1'', [''partId'' \<mapsto> ''p2'']),
               (''n2'', [''partId'' \<mapsto> ''p2'',
                         ''cutFace'' \<mapsto> ''{11111111-2222-3333-4444-555555555555}''])],
      components = [''a'' \<mapsto> [''children'' \<mapsto> ''c''],
                    ''b'' \<mapsto> [''linkDataType'' \<mapsto> ''partId'', ''linkData'' \<mapsto> ''p1''],
                    ''c'' \<mapsto> [''linkDataType'' \<mapsto> ''partId'', ''linkData'' \<mapsto> ''p2'']],
      rootComponent = [''children'' \<mapsto> ''b,a'']\<rparr>"

lemma componentWithId_eq: "componentWithId snapshot c = findComponent snapshot c"
  by (simp add: componentWithId_def findComponent_def)

lemma childIds_eq:
  "childIds ext component = filter (\<lambda>d. d \<noteq> []) (componentChildren ext component)"
  by (simp add: childIds_def componentChildren_def)

lemma partDirty_eq: "partDirty ext snapshot partId = checkIsPartDirty ext snapshot partId"
  by (simp add: partDirty_def checkIsPartDirty_def)

lemma collectPartNodes_char:
  "collectPartNodes ns m pid =
     m pid \<union> (if pid = [] then {}
               else fst ` {node \<in> set ns. valueOrEmpty (snd node) ''partId'' = pid})"
  by (induction ns arbitrary: m) (auto simp: Let_def)

lemma collectParts_member:
  assumes "node \<in> set (nodes snapshot)" and "valueOrEmpty (snd node) ''partId'' = pid" and "pid \<noteq> []"
  shows "fst node \<in> collectParts snapshot pid"
  using assms unfolding collectParts_def collectPartNodes_char by auto

lemma leafPartDirty_checked:
  assumes keys: "distinct (map fst (nodes snapshot))"
    and leaf: "leafPartDirty ext snapshot component"
  shows "fst (checkLinkedPart ext snapshot (collectParts snapshot) component acc)"
proof -
  let ?pid = "valueOrEmpty component ''linkData''"
  from leaf have t: "valueOrEmpty component ''linkDataType'' = ''partId''"
    by (simp add: leafPartDirty_def)
  show ?thesis
  proof (cases "checkIsPartDirty ext snapshot ?pid")
    case True
    then show ?thesis by (simp add: checkLinkedPart_def t Let_def)
  next
    case False
    with leaf have "case parts snapshot ?pid of
         None \<Rightarrow> False
       | Some part \<Rightarrow>
           cutFaceDirty ext snapshot part \<or>
           (?pid \<noteq> [] \<and>
            (\<exists>node \<in> set (nodes snapshot).
               valueOrEmpty (snd node) ''partId'' = ?pid \<and> cutFaceDirty ext snapshot (snd node)))"
      by (simp add: leafPartDirty_def partDirty_eq)
    then obtain part where part: "parts snapshot ?pid = Some part"
      and dep: "cutFaceDirty ext snapshot part \<or>
        (?pid \<noteq> [] \<and> (\<exists>node \<in> set (nodes snapshot).
           valueOrEmpty (snd node) ''partId'' = ?pid \<and> cutFaceDirty ext snapshot (snd node)))"
      by (cases "parts snapshot ?pid") simp_all
    have "checkIsPartDependencyDirty ext snapshot (collectParts snapshot) ?pid"
    proof (cases "cutFaceDirty ext snapshot part")
      case True
      then show ?thesis
        by (simp add: checkIsPartDependencyDirty_def part cutFaceDirty_def partDirty_eq Let_def)
    next
      case False
      with dep obtain node where n: "node \<in> set (nodes snapshot)"
        and p: "valueOrEmpty (snd node) ''partId'' = ?pid" and ne: "?pid \<noteq> []"
        and c: "cutFaceDirty ext snapshot (snd node)"
        by blast
      from keys n have m: "map_of (nodes snapshot) (fst node) = Some (snd node)"
        by (cases node) simp
      have "\<exists>nodeIdString \<in> collectParts snapshot ?pid.
          (case map_of (nodes snapshot) nodeIdString of
             None \<Rightarrow> False
           | Some node \<Rightarrow>
               (let cutFaceString = valueOrEmpty node ''cutFace'' in
                \<not> uuidIsNull ext cutFaceString \<and>
                checkIsPartDirty ext snapshot cutFaceString))"
      proof (rule bexI [of _ "fst node"])
        show "case map_of (nodes snapshot) (fst node) of
             None \<Rightarrow> False
           | Some node \<Rightarrow>
               (let cutFaceString = valueOrEmpty node ''cutFace'' in
                \<not> uuidIsNull ext cutFaceString \<and>
                checkIsPartDirty ext snapshot cutFaceString)"
          using c by (simp add: m cutFaceDirty_def partDirty_eq Let_def)
        show "fst node \<in> collectParts snapshot ?pid"
          by (rule collectParts_member [OF n p ne])
      qed
      then show ?thesis
        by (simp add: checkIsPartDependencyDirty_def part Let_def)
    qed
    then show ?thesis
      by (simp add: checkLinkedPart_def t Let_def)
  qed
qed

lemma checkLinkedPart_keeps:
  "fst acc \<Longrightarrow> fst (checkLinkedPart ext snapshot pn component acc)"
  "dirtyComponentIds (snd (checkLinkedPart ext snapshot pn component acc)) = dirtyComponentIds (snd acc)"
  by (simp_all add: checkLinkedPart_def Let_def)

lemma soundCheckD:
  assumes "soundCheck ext snapshot check" and "check c st = Some (b, st')"
  shows "dirtyComponentIds st \<subseteq> dirtyComponentIds st'"
    and "isChildPath ext snapshot (c # path) \<Longrightarrow> ownDirty ext snapshot (last (c # path)) \<Longrightarrow> b"
    and "isChildPath ext snapshot (c # path) \<Longrightarrow> ownDirty ext snapshot (last (c # path)) \<Longrightarrow>
         set (c # path) \<subseteq> dirtyComponentIds st'"
proof -
  from assms have *: "dirtyComponentIds st \<subseteq> dirtyComponentIds st' \<and>
        (\<forall>path. isChildPath ext snapshot (c # path) \<and> ownDirty ext snapshot (last (c # path)) \<longrightarrow>
           b \<and> set (c # path) \<subseteq> dirtyComponentIds st')"
    unfolding soundCheck_def by (elim allE impE) assumption
  from * show "dirtyComponentIds st \<subseteq> dirtyComponentIds st'" by (rule conjunct1)
  from * show "isChildPath ext snapshot (c # path) \<Longrightarrow> ownDirty ext snapshot (last (c # path)) \<Longrightarrow> b"
    by (elim conjE allE [of _ path]) (erule impE, erule (1) conjI, erule conjunct1)
  from * show "isChildPath ext snapshot (c # path) \<Longrightarrow> ownDirty ext snapshot (last (c # path)) \<Longrightarrow>
         set (c # path) \<subseteq> dirtyComponentIds st'"
    by (elim conjE allE [of _ path]) (erule impE, erule (1) conjI, erule conjunct2)
qed

lemma childrenSound_Nil: "childrenSound ext snapshot [] d s"
  by (simp add: childrenSound_def)

lemma childrenSound_skip:
  "childrenSound ext snapshot cs d s \<Longrightarrow> childrenSound ext snapshot ([] # cs) d s"
  by (simp add: childrenSound_def)

lemma childrenSound_Cons:
  assumes "childrenSound ext snapshot cs d s"
    and "\<And>path. isChildPath ext snapshot (c # path) \<Longrightarrow> ownDirty ext snapshot (last (c # path)) \<Longrightarrow>
           d \<and> set (c # path) \<subseteq> dirtyComponentIds s"
  shows "childrenSound ext snapshot (c # cs) d s"
  unfolding childrenSound_def
proof (intro ballI impI allI)
  fix c' path
  assume c': "c' \<in> set (c # cs)" and ne: "c' \<noteq> []"
    and p: "isChildPath ext snapshot (c' # path) \<and> ownDirty ext snapshot (last (c' # path))"
  show "d \<and> set (c' # path) \<subseteq> dirtyComponentIds s"
  proof (cases "c' = c")
    case True
    with assms(2) p show ?thesis by blast
  next
    case False
    with c' have "c' \<in> set cs" by simp
    with assms(1) ne p show ?thesis
      unfolding childrenSound_def by blast
  qed
qed

lemma checkChildren_sound:
  assumes f: "soundCheck ext snapshot check"
    and run: "checkChildren check cs (d0, s0) = Some (d, s)"
  shows "dirtyComponentIds s0 \<subseteq> dirtyComponentIds s \<and> (d0 \<longrightarrow> d) \<and>
         childrenSound ext snapshot cs d s"
  using run
proof (induction cs arbitrary: d0 s0)
  case Nil
  then show ?case by (simp add: childrenSound_Nil)
next
  case (Cons c cs)
  show ?case
  proof (cases "c = []")
    case True
    with Cons.prems have "checkChildren check cs (d0, s0) = Some (d, s)" by simp
    from Cons.IH [OF this] True show ?thesis by (simp add: childrenSound_skip)
  next
    case False
    with Cons.prems obtain b s1 where c1: "check c s0 = Some (b, s1)"
      and rest: "checkChildren check cs (d0 \<or> b, s1) = Some (d, s)"
      by (cases "check c s0") auto
    note m1 = soundCheckD(1) [OF f c1] and b1 = soundCheckD(2) [OF f c1]
      and p1 = soundCheckD(3) [OF f c1]
    from Cons.IH [OF rest] have m2: "dirtyComponentIds s1 \<subseteq> dirtyComponentIds s"
      and d2: "d0 \<or> b \<longrightarrow> d"
      and p2: "childrenSound ext snapshot cs d s"
      by simp_all
    have here: "d \<and> set (c # path) \<subseteq> dirtyComponentIds s"
      if a: "isChildPath ext snapshot (c # path)" and o: "ownDirty ext snapshot (last (c # path))" for path
    proof
      from b1 [OF a o] d2 show d by simp
      from p1 [OF a o] m2 show "set (c # path) \<subseteq> dirtyComponentIds s" by (rule subset_trans)
    qed
    from m1 m2 have "dirtyComponentIds s0 \<subseteq> dirtyComponentIds s" by (rule subset_trans)
    moreover from d2 have "d0 \<longrightarrow> d" by simp
    moreover have "childrenSound ext snapshot (c # cs) d s"
      by (rule childrenSound_Cons [OF p2 here])
    ultimately show ?thesis by simp
  qed
qed

lemma childrenSoundD:
  assumes "childrenSound ext snapshot cs d s" and "c \<in> set cs" and "c \<noteq> []"
    and "isChildPath ext snapshot (c # path)" and "ownDirty ext snapshot (last (c # path))"
  shows "d" and "set (c # path) \<subseteq> dirtyComponentIds s"
  using assms unfolding childrenSound_def by blast+

lemma checkIsComponentDirty_sound:
  assumes keys: "distinct (map fst (nodes snapshot))"
  shows "soundCheck ext snapshot (checkIsComponentDirty fuel ext snapshot (collectParts snapshot))"
proof (induction fuel)
  case 0
  show ?case by (simp add: soundCheck_def)
next
  case (Suc fuel)
  let ?pn = "collectParts snapshot"
  show ?case
    unfolding soundCheck_def
  proof (intro allI impI)
    fix c st b st'
    assume run: "checkIsComponentDirty (Suc fuel) ext snapshot ?pn c st = Some (b, st')"
    show "dirtyComponentIds st \<subseteq> dirtyComponentIds st' \<and>
        (\<forall>path. isChildPath ext snapshot (c # path) \<and> ownDirty ext snapshot (last (c # path)) \<longrightarrow>
           b \<and> set (c # path) \<subseteq> dirtyComponentIds st')"
    proof (cases "findComponent snapshot c")
      case None
      with run have r: "b = False" "st' = st" by simp_all
      have "\<not> (isChildPath ext snapshot (c # path) \<and> ownDirty ext snapshot (last (c # path)))" for path
        using None by (cases path) (simp_all add: ownDirty_def componentWithId_eq)
      then show ?thesis using r by simp
    next
      case (Some component)
      let ?acc = "checkLinkedPart ext snapshot ?pn component
          (isTrue ext (valueOrEmpty component ''__dirty''), st)"
      from run Some obtain s2 where
        ch: "checkChildren (checkIsComponentDirty fuel ext snapshot ?pn)
               (componentChildren ext component) (fst ?acc, snd ?acc) = Some (b, s2)"
        and st': "st' = (if b then s2\<lparr>dirtyComponentIds := insert c (dirtyComponentIds s2)\<rparr> else s2)"
        by (auto split: option.splits)
      from checkChildren_sound [OF Suc.IH ch]
      have m: "dirtyComponentIds (snd ?acc) \<subseteq> dirtyComponentIds s2"
        and d: "fst ?acc \<longrightarrow> b"
        and cs: "childrenSound ext snapshot (componentChildren ext component) b s2"
        by simp_all
      have st0: "dirtyComponentIds (snd ?acc) = dirtyComponentIds st"
        by (simp add: checkLinkedPart_keeps(2))
      have grow: "dirtyComponentIds s2 \<subseteq> dirtyComponentIds st'"
        unfolding st' by auto
      have self: "b \<Longrightarrow> c \<in> dirtyComponentIds st'"
        unfolding st' by simp
      have paths: "b \<and> set (c # path) \<subseteq> dirtyComponentIds st'"
        if p: "isChildPath ext snapshot (c # path)" and o: "ownDirty ext snapshot (last (c # path))"
        for path
      proof (cases path)
        case Nil
        with o Some have "isTrue ext (valueOrEmpty component ''__dirty'') \<or>
            leafPartDirty ext snapshot component"
          by (simp add: ownDirty_def componentWithId_eq)
        then have "fst ?acc"
          using checkLinkedPart_keeps(1) [of "(isTrue ext (valueOrEmpty component ''__dirty''), st)"
              ext snapshot ?pn component]
            leafPartDirty_checked [OF keys, of ext component
              "(isTrue ext (valueOrEmpty component ''__dirty''), st)"]
          by auto
        with d have b by simp
        with self Nil show ?thesis by simp
      next
        case (Cons c' rest)
        from p Some have mem: "c' \<in> set (componentChildren ext component)"
          and ne: "c' \<noteq> []" and p': "isChildPath ext snapshot (c' # rest)"
          unfolding Cons by (simp_all add: componentWithId_eq childIds_eq)
        from o have o': "ownDirty ext snapshot (last (c' # rest))"
          unfolding Cons by simp
        from childrenSoundD [OF cs mem ne p' o']
        have b and sub: "set (c' # rest) \<subseteq> dirtyComponentIds s2"
          by simp_all
        from sub grow have "set (c' # rest) \<subseteq> dirtyComponentIds st'"
          by (rule subset_trans)
        with \<open>b\<close> self show ?thesis
          unfolding Cons by simp
      qed
      from m grow have "dirtyComponentIds st \<subseteq> dirtyComponentIds st'"
        unfolding st0 by (rule subset_trans)
      with paths show ?thesis by blast
    qed
  qed
qed

lemma checkChildren_total:
  assumes "\<forall>c \<in> set cs. c \<noteq> [] \<longrightarrow> (\<forall>st. check c st \<noteq> None)"
  shows "checkChildren check cs acc \<noteq> None"
  using assms
proof (induction cs arbitrary: acc)
  case Nil
  show ?case by simp
next
  case (Cons c cs)
  then have rest: "checkChildren check cs acc' \<noteq> None" for acc'
    by simp
  show ?case
  proof (cases "c = []")
    case True
    then show ?thesis using rest by simp
  next
    case False
    with Cons.prems obtain r where "check c (snd acc) = Some r"
      by fastforce
    then show ?thesis
      using False rest by (cases r) simp
  qed
qed

lemma checkIsComponentDirty_total:
  "depthBelow fuel ext snapshot c \<Longrightarrow>
   checkIsComponentDirty fuel ext snapshot pn c st \<noteq> None"
proof (induction fuel arbitrary: c st)
  case 0
  then show ?case by simp
next
  case (Suc fuel)
  show ?case
  proof (cases "findComponent snapshot c")
    case None
    then show ?thesis by simp
  next
    case (Some component)
    with Suc.prems have "\<forall>d \<in> set (componentChildren ext component).
        d \<noteq> [] \<longrightarrow> depthBelow fuel ext snapshot d"
      by (auto simp: list_all_iff componentWithId_eq childIds_eq)
    with Suc.IH have "\<forall>d \<in> set (componentChildren ext component).
        d \<noteq> [] \<longrightarrow> (\<forall>st. checkIsComponentDirty fuel ext snapshot pn d st \<noteq> None)"
      by blast
    from checkChildren_total [OF this]
    show ?thesis
      using Some by (auto split: option.splits)
  qed
qed

text \<open>
  C5. Let the node ids of the snapshot be distinct, and let a children-path lead from the
  root to a component that is dirty on its own account: its \<open>__dirty\<close> is true, or it is a
  part leaf whose linked part, or a cut-face part referenced by that part or by one of its
  nodes, is dirty. Whenever \<open>checkDirtyFlags\<close> returns, every component on the path, the
  root and the component itself included, is in the dirty component id set; and it does
  return when the fuel exceeds the depth of the component tree.
\<close>

theorem checkDirtyFlags_closure:
  assumes keys: "distinct (map fst (nodes snapshot))"
    and path: "isChildPath ext snapshot (nullUuidString # path)"
    and dirty: "ownDirty ext snapshot (last (nullUuidString # path))"
  shows "(depthBelow fuel ext snapshot nullUuidString \<longrightarrow>
            checkDirtyFlags fuel ext snapshot \<noteq> None) \<and>
         (\<forall>st. checkDirtyFlags fuel ext snapshot = Some st \<longrightarrow>
            set (nullUuidString # path) \<subseteq> dirtyComponentIds st)"
proof (intro conjI impI allI)
  assume "depthBelow fuel ext snapshot nullUuidString"
  from checkIsComponentDirty_total [OF this]
  show "checkDirtyFlags fuel ext snapshot \<noteq> None"
    by (simp add: checkDirtyFlags_def)
next
  fix st
  assume "checkDirtyFlags fuel ext snapshot = Some st"
  then obtain b where run: "checkIsComponentDirty fuel ext snapshot (collectParts snapshot)
      nullUuidString \<lparr>dirtyPartIds = {}, dirtyComponentIds = {}\<rparr> = Some (b, st)"
    by (auto simp: checkDirtyFlags_def)
  from soundCheckD(3) [OF checkIsComponentDirty_sound [OF keys] run path dirty]
  show "set (nullUuidString # path) \<subseteq> dirtyComponentIds st" .
qed

lemma dirtySnapshot_keys: "distinct (map fst (nodes dirtySnapshot))"
  by (simp add: dirtySnapshot_def)

lemma dirtySnapshot_path: "isChildPath specExternals dirtySnapshot (nullUuidString # [''a'', ''c''])"
  by (simp add: dirtySnapshot_def componentWithId_def childIds_def specExternals_def
      valueOrEmpty_def nullUuidString_def)

lemma dirtySnapshot_leaf: "ownDirty specExternals dirtySnapshot (last (nullUuidString # [''a'', ''c'']))"
  by (simp add: ownDirty_def leafPartDirty_def cutFaceDirty_def partDirty_def
      dirtySnapshot_def componentWithId_def specExternals_def valueOrEmpty_def nullUuidString_def
      wellFormedUuid_def isHexDigit_def)

lemma dirtySnapshot_depth: "depthBelow (Suc (Suc (Suc 0))) specExternals dirtySnapshot nullUuidString"
  by (simp add: dirtySnapshot_def componentWithId_def childIds_def specExternals_def
      valueOrEmpty_def nullUuidString_def)

lemma dirtySnapshot_parts: "collectParts dirtySnapshot = (\<lambda>partId. {})(''p2'' := {''n2'', ''n1''})"
  by (simp add: collectParts_def dirtySnapshot_def valueOrEmpty_def Let_def)

lemma dirtySnapshot_flags:
  "checkDirtyFlags (Suc (Suc (Suc 0))) specExternals dirtySnapshot =
     Some \<lparr>dirtyPartIds = {}, dirtyComponentIds = {nullUuidString, ''a'', ''c''}\<rparr>"
  unfolding checkDirtyFlags_def dirtySnapshot_parts
  by (simp add: dirtySnapshot_def findComponent_def componentChildren_def specExternals_def
      valueOrEmpty_def nullUuidString_def checkLinkedPart_def checkIsPartDirty_def
      checkIsPartDependencyDirty_def wellFormedUuid_def isHexDigit_def Let_def insert_commute)

theorem checkDirtyFlags_closure_witness:
  "depthBelow (Suc (Suc (Suc 0))) specExternals dirtySnapshot nullUuidString \<and>
   isChildPath specExternals dirtySnapshot [nullUuidString, ''a'', ''c''] \<and>
   ownDirty specExternals dirtySnapshot ''c'' \<and>
   checkDirtyFlags (Suc (Suc (Suc 0))) specExternals dirtySnapshot =
     Some \<lparr>dirtyPartIds = {}, dirtyComponentIds = {nullUuidString, ''a'', ''c''}\<rparr>"
proof -
  note t = checkDirtyFlags_closure [OF dirtySnapshot_keys dirtySnapshot_path dirtySnapshot_leaf,
      of "Suc (Suc (Suc 0))"]
  from t dirtySnapshot_depth
  have "checkDirtyFlags (Suc (Suc (Suc 0))) specExternals dirtySnapshot \<noteq> None"
    by blast
  then obtain st where st: "checkDirtyFlags (Suc (Suc (Suc 0))) specExternals dirtySnapshot = Some st"
    by blast
  with t have "set (nullUuidString # [''a'', ''c'']) \<subseteq> dirtyComponentIds st"
    by blast
  with st dirtySnapshot_flags dirtySnapshot_path dirtySnapshot_leaf dirtySnapshot_depth
  show ?thesis by simp
qed

subsection \<open>Collecting incombinable meshes\<close>

text \<open>
  Modelled from the spec: the per-component cache entry \<open>GeneratedComponent\<close> is declared
  outside the embedded sources; its fields are those of the data model. The generator state
  adds the component cache to the combination cache. The map \<open>m_cacheContext->components\<close>
  creates an empty entry on first access, so it is a total function here. Position keys,
  object nodes, object edges and node vertices are abstract.
\<close>

record ('m, 'k, 'n, 'e, 'w) GeneratedComponent =
  mesh :: "'m option"
  sharedQuadEdges :: "('k \<times> 'k) set"
  noneSeamVertices :: "'k set"
  objectNodes :: "'n list"
  objectEdges :: "'e list"
  objectNodeVertices :: "'w list"
  incombinableMeshes :: "'m list"

record ('m, 'k, 'n, 'e, 'w) GeneratorState = "'m CombinerState" +
  cacheComponents :: "string \<Rightarrow> ('m, 'k, 'n, 'e, 'w) GeneratedComponent"

text \<open>
  \<open>combineComponentChildGroupMesh\<close> combines every child component, merges the child's
  cache entry into the owner's, and sorts the child's mesh: a null mesh is dropped, an
  incombinable mesh is pushed to the owner's \<open>incombinableMeshes\<close>, any other mesh is
  queued for \<open>combineMultipleMeshes\<close>. The recursive call \<open>combineComponentMesh\<close> is a
  parameter (it builds part meshes with the external stroke builders); it returns the
  mesh, the child's combine mode and the new state. The default of the \<open>recombine\<close>
  argument is declared outside the embedded sources and is a parameter too.
\<close>

definition mergeChildCache ::
  "('m, 'k, 'n, 'e, 'w) GeneratedComponent \<Rightarrow> ('m, 'k, 'n, 'e, 'w) GeneratedComponent \<Rightarrow>
   ('m, 'k, 'n, 'e, 'w) GeneratedComponent" where
  "mergeChildCache componentCache childComponentCache =
     componentCache
       \<lparr>noneSeamVertices :=
          noneSeamVertices componentCache \<union> noneSeamVertices childComponentCache,
        sharedQuadEdges := sharedQuadEdges componentCache \<union> sharedQuadEdges childComponentCache,
        objectNodes := objectNodes componentCache @ objectNodes childComponentCache,
        objectEdges := objectEdges componentCache @ objectEdges childComponentCache,
        objectNodeVertices :=
          objectNodeVertices componentCache @ objectNodeVertices childComponentCache\<rparr>"

definition collectChildMesh ::
  "('m, 'v, 's, 'x) MeshLib_scheme \<Rightarrow>
   (string \<Rightarrow> ('m, 'k, 'n, 'e, 'w) GeneratorState \<Rightarrow>
      'm option \<times> CombineMode \<times> ('m, 'k, 'n, 'e, 'w) GeneratorState) \<Rightarrow>
   string \<Rightarrow> 'm subMeshEntry list \<times> ('m, 'k, 'n, 'e, 'w) GeneratorState \<Rightarrow> string \<Rightarrow>
   'm subMeshEntry list \<times> ('m, 'k, 'n, 'e, 'w) GeneratorState" where
  "collectChildMesh lib combineComponentMesh owner acc childIdString =
     (case acc of (multipleMeshes, st) \<Rightarrow>
      (case combineComponentMesh childIdString st of (subMeshPtr, childCombineMode, st1) \<Rightarrow>
         if childCombineMode = Uncombined then (multipleMeshes, st1)
         else
           (let st2 = st1\<lparr>cacheComponents := (cacheComponents st1)
                  (owner := mergeChildCache (cacheComponents st1 owner)
                              (cacheComponents st1 childIdString))\<rparr>
            in (case subMeshPtr of
                  None \<Rightarrow> (multipleMeshes, st2)
                | Some subMesh \<Rightarrow>
                    if isNull lib subMesh then (multipleMeshes, st2)
                    else if \<not> isCombinable lib subMesh then
                      (multipleMeshes,
                       st2\<lparr>cacheComponents := (cacheComponents st2)
                         (owner := (cacheComponents st2 owner)
                            \<lparr>incombinableMeshes :=
                               incombinableMeshes (cacheComponents st2 owner) @ [subMesh]\<rparr>)\<rparr>)
                    else
                      (multipleMeshes @ [(Some subMesh, childCombineMode, childIdString)], st2)))))"

definition combineComponentChildGroupMesh ::
  "('m, 'v, 's, 'x) MeshLib_scheme \<Rightarrow>
   (string \<Rightarrow> ('m, 'k, 'n, 'e, 'w) GeneratorState \<Rightarrow>
      'm option \<times> CombineMode \<times> ('m, 'k, 'n, 'e, 'w) GeneratorState) \<Rightarrow>
   bool \<Rightarrow> string list \<Rightarrow> string \<Rightarrow> ('m, 'k, 'n, 'e, 'w) GeneratorState \<Rightarrow>
   'm option \<times> ('m, 'k, 'n, 'e, 'w) GeneratorState" where
  "combineComponentChildGroupMesh lib combineComponentMesh recombineFlag componentIdStrings owner st =
     (case foldl (collectChildMesh lib combineComponentMesh owner) ([], st) componentIdStrings of
        (multipleMeshes, st') \<Rightarrow> combineMultipleMeshes lib multipleMeshes recombineFlag st')"

text \<open>A generator state with an empty cache, for running the combiner.\<close>

definition demoGeneratorState :: "(string, unit, unit, unit, unit) GeneratorState" where
  "demoGeneratorState =
     \<lparr>cachedCombination = [], isSuccessful = True,
      cacheComponents = (\<lambda>componentIdString.
        \<lparr>mesh = None, sharedQuadEdges = {}, noneSeamVertices = {}, objectNodes = [],
         objectEdges = [], objectNodeVertices = [], incombinableMeshes = []\<rparr>)\<rparr>"

lemma collectChildMesh_pushes:
  assumes "combineComponentMesh childIdString st = (Some subMesh, childCombineMode, st1)"
    and "childCombineMode \<noteq> Uncombined" and "\<not> isNull lib subMesh" and "\<not> isCombinable lib subMesh"
  shows "incombinableMeshes
           (cacheComponents (snd (collectChildMesh lib combineComponentMesh owner (multipleMeshes, st)
              childIdString)) owner) =
         incombinableMeshes (cacheComponents st1 owner) @ [subMesh]"
  using assms by (simp add: collectChildMesh_def Let_def mergeChildCache_def)

lemma combineSubMesh_components:
  "cacheComponents (snd (snd (combineSubMesh lib rc acc it))) = cacheComponents (snd (snd acc))"
  by (cases acc; cases it)
    (auto simp: combineSubMesh_def Let_def split: option.splits)

lemma foldl_combineSubMesh_components:
  "cacheComponents (snd (snd (foldl (combineSubMesh lib rc) acc xs))) = cacheComponents (snd (snd acc))"
  by (induction xs arbitrary: acc) (simp_all add: combineSubMesh_components)

lemma combineMultipleMeshes_components:
  "cacheComponents (snd (combineMultipleMeshes lib xs rc st)) = cacheComponents st"
proof -
  obtain m ids st' where f: "foldl (combineSubMesh lib rc) (None, [], st) xs = (m, ids, st')"
    by (cases "foldl (combineSubMesh lib rc) (None, [], st) xs") auto
  from foldl_combineSubMesh_components [of lib rc "(None, [], st)" xs]
  have "cacheComponents st' = cacheComponents st"
    by (simp add: f)
  then show ?thesis
    by (simp add: combineMultipleMeshes_def f split: option.splits)
qed

text \<open>
  C9 (where the code diverges). \<open>combineComponentChildGroupMesh\<close> pushes an incombinable
  submesh to the owner's \<open>incombinableMeshes\<close> (\<open>collectChildMesh_pushes\<close>), but
  \<open>combineMultipleMeshes\<close> deletes it: an incombinable entry in its list changes neither
  the result nor the state of the call, and no component cache entry, in particular no
  \<open>incombinableMeshes\<close> list, is touched.
\<close>

theorem combineMultipleMeshes_discards_incombinable:
  assumes "\<not> isCombinable lib subMesh"
  shows "combineMultipleMeshes lib (before @ (Some subMesh, mode, ident) # after) rc st =
           combineMultipleMeshes lib (before @ after) rc st \<and>
         cacheComponents
           (snd (combineMultipleMeshes lib (before @ (Some subMesh, mode, ident) # after) rc st)) =
           cacheComponents st"
proof -
  from assms have "\<not> usable lib (Some subMesh, mode, ident)"
    by (simp add: usable_def)
  then have eq: "foldl (combineSubMesh lib rc) (None, [], st) (before @ (Some subMesh, mode, ident) # after) =
      foldl (combineSubMesh lib rc) (None, [], st) (before @ after)"
    by (simp add: combineSubMesh_skip)
  have "combineMultipleMeshes lib (before @ (Some subMesh, mode, ident) # after) rc st =
      combineMultipleMeshes lib (before @ after) rc st"
    unfolding combineMultipleMeshes_def eq ..
  then show ?thesis
    by (simp only: combineMultipleMeshes_components)
qed

theorem combineMultipleMeshes_discards_incombinable_witness:
  "\<not> isNull demoMeshLib ''open'' \<and> \<not> isCombinable demoMeshLib ''open'' \<and>
   combineMultipleMeshes demoMeshLib [(Some ''A'', Normal, ''a''), (Some ''open'', Normal, ''b'')]
     True demoGeneratorState = (Some ''A'', demoGeneratorState) \<and>
   incombinableMeshes (cacheComponents
     (snd (combineMultipleMeshes demoMeshLib
        [(Some ''A'', Normal, ''a''), (Some ''open'', Normal, ''b'')] True demoGeneratorState))
     nullUuidString) = []"
proof -
  have n: "\<not> isNull demoMeshLib ''open''" and c: "\<not> isCombinable demoMeshLib ''open''"
    by (simp_all add: demoMeshLib_def)
  have r: "combineMultipleMeshes demoMeshLib ([(Some ''A'', Normal, ''a'')] @ []) True
      demoGeneratorState = (Some ''A'', demoGeneratorState)"
    by (simp add: combineMultipleMeshes_def combineSubMesh_def demoMeshLib_def)
  have e: "incombinableMeshes (cacheComponents demoGeneratorState nullUuidString) = []"
    by (simp add: demoGeneratorState_def)
  from combineMultipleMeshes_discards_incombinable [OF c, of "[(Some ''A'', Normal, ''a'')]"
      Normal "''b''" "[]" True demoGeneratorState]
  show ?thesis
    unfolding r using n c e by simp
qed

end
